theory Spec2Isabelle
  imports Complex_Main "HOL-Library.Multiset"
begin

section \<open>Strings\<close>

text \<open>
  JavaScript strings are modelled as \<^typ>\<open>string\<close>: a list of code units, restricted by the
  8-bit type \<^typ>\<open>char\<close> to the code units 0..255. That is exactly the domain on which
  \<^verbatim>\<open>btoa\<close> is defined, and every regular expression of the program is over ASCII.
\<close>

definition isSpace :: "char \<Rightarrow> bool" where
  \<comment> \<open>the white space and line terminators that \<^verbatim>\<open>String.prototype.trim\<close> strips, below 256\<close>
  "isSpace c \<longleftrightarrow> c \<in> set [CHR 0x09, CHR 0x0A, CHR 0x0B, CHR 0x0C, CHR 0x0D, CHR 0x20, CHR 0xA0]"

definition trim :: "string \<Rightarrow> string" where
  "trim s = rev (dropWhile isSpace (rev (dropWhile isSpace s)))"

fun join :: "string \<Rightarrow> string list \<Rightarrow> string" where
  \<comment> \<open>\<^verbatim>\<open>Array.prototype.join\<close>\<close>
  "join sep [] = []"
| "join sep [x] = x"
| "join sep (x # y # ys) = x @ sep @ join sep (y # ys)"

definition replaceAll :: "char \<Rightarrow> string \<Rightarrow> string \<Rightarrow> string" where
  \<comment> \<open>\<^verbatim>\<open>str.replace(/c/g, r)\<close> for a one-character pattern\<close>
  "replaceAll c r s = concat (map (\<lambda>x. if x = c then r else [x]) s)"

definition isAlnum :: "char \<Rightarrow> bool" where
  \<comment> \<open>the character class \<^verbatim>\<open>[a-z0-9]\<close> under the flag \<^verbatim>\<open>i\<close>\<close>
  "isAlnum c \<longleftrightarrow>
     (let n = of_char c :: nat
      in (97 \<le> n \<and> n \<le> 122) \<or> (65 \<le> n \<and> n \<le> 90) \<or> (48 \<le> n \<and> n \<le> 57))"

section \<open>Thread keys\<close>

definition STORAGE_KEY_PREFIX :: string where
  "STORAGE_KEY_PREFIX = ''lce_thread_''"

definition stripTrailingSlash :: "string \<Rightarrow> string" where
  \<comment> \<open>\<^verbatim>\<open>.replace(/\/$/, '')\<close>: at most one slash, at the very end\<close>
  "stripTrailingSlash s = (if s \<noteq> [] \<and> last s = CHR ''/'' then butlast s else s)"

definition b64digit :: "nat \<Rightarrow> char" where
  "b64digit n =
     (''ABCDEFGHIJKLMNOPQRSTUVWXYZabcdefghijklmnopqrstuvwxyz0123456789+/'') ! (n mod 64)"

fun btoa :: "string \<Rightarrow> string" where
  \<comment> \<open>base64 of a string of code units below 256 (the type admits no other)\<close>
  "btoa [] = []"
| "btoa [a] =
     (let n = of_char a * 65536 :: nat
      in [b64digit (n div 262144), b64digit (n div 4096), CHR ''='', CHR ''=''])"
| "btoa [a, b] =
     (let n = of_char a * 65536 + of_char b * 256 :: nat
      in [b64digit (n div 262144), b64digit (n div 4096), b64digit (n div 64), CHR ''=''])"
| "btoa (a # b # c # rest) =
     (let n = of_char a * 65536 + of_char b * 256 + of_char c :: nat
      in [b64digit (n div 262144), b64digit (n div 4096), b64digit (n div 64), b64digit n]
         @ btoa rest)"

definition getThreadKey :: "string \<Rightarrow> string" where
  \<comment> \<open>content script; the argument is \<^verbatim>\<open>location.pathname\<close>\<close>
  "getThreadKey pathname =
     (let path = stripTrailingSlash pathname
      in STORAGE_KEY_PREFIX @ map (\<lambda>c. if isAlnum c then c else CHR ''_'') (btoa path))"

record url =
  \<comment> \<open>the object \<^verbatim>\<open>new URL(url)\<close>, parsed by the browser\<close>
  url_hostname :: string
  url_pathname :: string

definition popup_getThreadKey :: "url \<Rightarrow> string" where
  \<comment> \<open>popup script: \<^verbatim>\<open>getThreadKey(url)\<close>\<close>
  "popup_getThreadKey u =
     (let path = stripTrailingSlash (url_pathname u)
      in STORAGE_KEY_PREFIX @ map (\<lambda>c. if isAlnum c then c else CHR ''_'') (btoa path))"

section \<open>Escaping for the HTML export\<close>

definition escapeHtml :: "string \<Rightarrow> string" where
  "escapeHtml str =
     replaceAll (CHR ''>'') ''&gt;'' (replaceAll (CHR ''<'') ''&lt;''
       (replaceAll (CHR ''&'') ''&amp;'' str))"

definition spec_escape_char :: "char \<Rightarrow> string" where
  \<comment> \<open>the escaping as the specification words it, one character at a time\<close>
  "spec_escape_char c =
     (if c = CHR ''&'' then ''&amp;'' else if c = CHR ''<'' then ''&lt;''
      else if c = CHR ''>'' then ''&gt;'' else [c])"


section \<open>The rendered document\<close>

text \<open>
  An element carries what the program reads from it: its \<^verbatim>\<open>tagName\<close> (upper case, as the DOM
  reports it for HTML elements), its attributes, the number \<^verbatim>\<open>parseFloat(el.style.top)\<close>
  (\<open>None\<close> is NaN; a finite double is a rational number) and the \<^verbatim>\<open>href\<close> property.
\<close>

record props =
  tagName :: string
  attributes :: "(string \<times> string) list"
  styleTop :: "rat option"
  href :: string

datatype node = TextNode string | CommentNode string | Element props "node list"

type_synonym element = "props \<times> node list"

definition getAttribute :: "props \<Rightarrow> string \<Rightarrow> string option" where
  "getAttribute p name = map_of (attributes p) name"

definition elementId :: "props \<Rightarrow> string" where
  \<comment> \<open>\<^verbatim>\<open>el.id\<close>\<close>
  "elementId p = (case getAttribute p ''id'' of None \<Rightarrow> [] | Some v \<Rightarrow> v)"

definition className :: "props \<Rightarrow> string" where
  "className p = (case getAttribute p ''class'' of None \<Rightarrow> [] | Some v \<Rightarrow> v)"

definition isAsciiWs :: "char \<Rightarrow> bool" where
  "isAsciiWs c \<longleftrightarrow> c \<in> set [CHR 0x09, CHR 0x0A, CHR 0x0C, CHR 0x0D, CHR 0x20]"

fun splitWs :: "string \<Rightarrow> string \<Rightarrow> string list" where
  \<comment> \<open>the tokens of a class attribute; the first argument is the token being read\<close>
  "splitWs cur [] = (if cur = [] then [] else [cur])"
| "splitWs cur (c # cs) =
     (if isAsciiWs c then (if cur = [] then splitWs [] cs else cur # splitWs [] cs)
      else splitWs (cur @ [c]) cs)"

definition hasClass :: "string \<Rightarrow> props \<Rightarrow> bool" where
  "hasClass c p \<longleftrightarrow> c \<in> set (splitWs [] (className p))"

definition toLowerCase :: "string \<Rightarrow> string" where
  \<comment> \<open>on tag names, which are ASCII\<close>
  "toLowerCase s =
     map (\<lambda>c. let n = of_char c :: nat in if 65 \<le> n \<and> n \<le> 90 then char_of (n + 32) else c) s"

definition isTag :: "string \<Rightarrow> props \<Rightarrow> bool" where
  \<comment> \<open>a type selector such as \<^verbatim>\<open>button\<close>\<close>
  "isTag t p \<longleftrightarrow> toLowerCase (tagName p) = t"

fun nodeText :: "node \<Rightarrow> string" where
  "nodeText (TextNode s) = s"
| "nodeText (CommentNode s) = []"
| "nodeText (Element p cs) = concat (map nodeText cs)"

definition textContent :: "element \<Rightarrow> string" where
  "textContent el = concat (map nodeText (snd el))"

fun elems :: "node list \<Rightarrow> element list" where
  \<comment> \<open>the elements among the given nodes and below them, in document order\<close>
  "elems [] = []"
| "elems (TextNode s # rest) = elems rest"
| "elems (CommentNode s # rest) = elems rest"
| "elems (Element p cs # rest) = (p, cs) # elems cs @ elems rest"

definition querySelectorAll :: "(props \<Rightarrow> bool) \<Rightarrow> element \<Rightarrow> element list" where
  \<comment> \<open>for a selector without combinators, given as a predicate on the element\<close>
  "querySelectorAll sel el = filter (\<lambda>e. sel (fst e)) (elems (snd el))"

definition querySelector :: "(props \<Rightarrow> bool) \<Rightarrow> element \<Rightarrow> element option" where
  "querySelector sel el = (case querySelectorAll sel el of [] \<Rightarrow> None | e # _ \<Rightarrow> Some e)"

fun firstElement :: "node list \<Rightarrow> element option" where
  "firstElement [] = None"
| "firstElement (TextNode s # rest) = firstElement rest"
| "firstElement (CommentNode s # rest) = firstElement rest"
| "firstElement (Element p cs # rest) = Some (p, cs)"

fun findWithNext :: "(props \<Rightarrow> bool) \<Rightarrow> node list \<Rightarrow> (element \<times> element option) option" where
  \<comment> \<open>\<^verbatim>\<open>querySelector\<close> together with the \<^verbatim>\<open>nextElementSibling\<close> of the element found\<close>
  "findWithNext sel [] = None"
| "findWithNext sel (TextNode s # rest) = findWithNext sel rest"
| "findWithNext sel (CommentNode s # rest) = findWithNext sel rest"
| "findWithNext sel (Element p cs # rest) =
     (if sel p then Some ((p, cs), firstElement rest)
      else case findWithNext sel cs of
             Some r \<Rightarrow> Some r
           | None \<Rightarrow> findWithNext sel rest)"

fun queryBelow :: "(props \<Rightarrow> bool) \<Rightarrow> (props \<Rightarrow> bool) \<Rightarrow> bool \<Rightarrow> node list \<Rightarrow> element option" where
  \<comment> \<open>\<^verbatim>\<open>querySelector\<close> for a selector \<^verbatim>\<open>A B\<close> with a descendant combinator; the flag tells
      whether an ancestor matching \<^verbatim>\<open>A\<close> has been passed\<close>
  "queryBelow anc sel inside [] = None"
| "queryBelow anc sel inside (TextNode s # rest) = queryBelow anc sel inside rest"
| "queryBelow anc sel inside (CommentNode s # rest) = queryBelow anc sel inside rest"
| "queryBelow anc sel inside (Element p cs # rest) =
     (if inside \<and> sel p then Some (p, cs)
      else case queryBelow anc sel (inside \<or> anc p) cs of
             Some r \<Rightarrow> Some r
           | None \<Rightarrow> queryBelow anc sel inside rest)"

fun messageElements :: "bool \<Rightarrow> node list \<Rightarrow> (bool \<times> element) list" where
  \<comment> \<open>\<^verbatim>\<open>document.querySelectorAll('[data-message-id]')\<close>; each element comes with the fact
      whether it lies below a \<^verbatim>\<open>button\<close>, which the selectors of the parser can see\<close>
  "messageElements inButton [] = []"
| "messageElements inButton (TextNode s # rest) = messageElements inButton rest"
| "messageElements inButton (CommentNode s # rest) = messageElements inButton rest"
| "messageElements inButton (Element p cs # rest) =
     (if getAttribute p ''data-message-id'' \<noteq> None then [(inButton, (p, cs))] else [])
     @ messageElements (inButton \<or> isTag ''button'' p) cs
     @ messageElements inButton rest"

section \<open>Message records and the parser\<close>

record message =
  id_str :: string
  role :: string
  timestampText :: string
  topPx :: rat
  contentHtml :: string
  contentText :: string

definition startsWith :: "string \<Rightarrow> string \<Rightarrow> bool" where
  "startsWith pre s \<longleftrightarrow> take (length pre) s = pre"

definition isDateLabel :: "props \<Rightarrow> bool" where
  \<comment> \<open>the selector \<^verbatim>\<open>.text-muted-foreground.font-medium\<close>\<close>
  "isDateLabel p \<longleftrightarrow> hasClass ''text-muted-foreground'' p \<and> hasClass ''font-medium'' p"

definition timestampOf :: "node list \<Rightarrow> string" where
  \<comment> \<open>lines 57 to 60 of the parser, on the children of the candidate\<close>
  "timestampOf cs =
     (let dateSpan = findWithNext isDateLabel cs;
          timeSpan = (case dateSpan of None \<Rightarrow> None | Some (d, nx) \<Rightarrow> nx)
      in join '' '' (filter (\<lambda>s. s \<noteq> [])
           ((case dateSpan of None \<Rightarrow> [] | Some (d, nx) \<Rightarrow> [trim (textContent d)])
            @ (case timeSpan of None \<Rightarrow> [] | Some t \<Rightarrow> [trim (textContent t)]))))"

definition metaSep :: string where
  \<comment> \<open>a space, a middle dot (U+00B7), a space\<close>
  "metaSep = [CHR 0x20, CHR 0xB7, CHR 0x20]"

definition nl :: char where
  "nl = CHR 0x0A"

definition parseMessageElement :: "(node list \<Rightarrow> string) \<Rightarrow> bool \<Rightarrow> element \<Rightarrow> message option" where
  \<comment> \<open>the first argument is the browser's serialiser behind \<^verbatim>\<open>innerHTML\<close>, the second tells
      whether the candidate lies below a \<^verbatim>\<open>button\<close>\<close>
  "parseMessageElement innerHTML inButton el =
     (let p = fst el; cs = snd el;
          i = (case getAttribute p ''data-message-id'' of
                 None \<Rightarrow> elementId p
               | Some v \<Rightarrow> if v \<noteq> [] then v else elementId p)
      in if i = [] then None
         else
           let r = (if startsWith ''umsg_'' i then ''user'' else ''ai'');
               ts = timestampOf cs;
               top = (case styleTop p of None \<Rightarrow> 0 | Some v \<Rightarrow> v)
           in if r = ''user'' then
                (let prose = querySelector
                       (\<lambda>q. hasClass ''PromptBox_customProse__le_d3'' q \<or> hasClass ''prose'' q) el
                 in Some \<lparr>id_str = i, role = r, timestampText = ts, topPx = top,
                      contentHtml = (case prose of None \<Rightarrow> [] | Some e \<Rightarrow> innerHTML (snd e)),
                      contentText = (case prose of None \<Rightarrow> [] | Some e \<Rightarrow> trim (textContent e))\<rparr>)
              else
                (let proseBlocks = querySelectorAll (hasClass ''prose'') el;
                     parts = map (\<lambda>e. innerHTML (snd e))
                               (filter (\<lambda>e. trim (textContent e) \<noteq> []) proseBlocks);
                     text0 = (if proseBlocks \<noteq> []
                              then join [nl, nl] (map (\<lambda>e. trim (textContent e)) proseBlocks)
                              else trim (textContent el));
                     below = (inButton \<or> isTag ''button'' p);
                     thoughtBtn = queryBelow (isTag ''button'')
                                    (\<lambda>q. isTag ''span'' q \<and> hasClass ''truncate'' q) below cs;
                     toolBtn = queryBelow (isTag ''button'') (hasClass ''truncate'') below cs;
                     meta = (case thoughtBtn of
                               None \<Rightarrow> []
                             | Some e \<Rightarrow> if textContent e \<noteq> [] then [trim (textContent e)] else [])
                            @ (case toolBtn of
                                 None \<Rightarrow> []
                               | Some e \<Rightarrow> if textContent e \<noteq> [] \<and> toolBtn \<noteq> thoughtBtn
                                           then [trim (textContent e)] else [])
                 in Some \<lparr>id_str = i, role = r, timestampText = ts, topPx = top,
                      contentHtml = join [nl] parts,
                      contentText = (if meta \<noteq> []
                                     then ''['' @ join metaSep meta @ '']'' @ [nl, nl] @ text0
                                     else text0)\<rparr>))"

section \<open>The message store\<close>

text \<open>
  \<^verbatim>\<open>capturedMessages\<close> is a plain object used as a dictionary from message id to record. It is
  modelled by the list of its own properties in the order of their creation. Two traits of a
  plain object are part of the model. Reading \<^verbatim>\<open>capturedMessages[id]\<close> finds an own property or,
  failing that, a property of \<^verbatim>\<open>Object.prototype\<close>. And \<^verbatim>\<open>Object.keys\<close> and \<^verbatim>\<open>Object.values\<close>
  list the own properties whose key is an array index first, in ascending numeric order, and
  then the others in the order of their creation.

  \<^verbatim>\<open>Object.prototype\<close> is taken with its standard properties. The program adds to it in one
  case: observing the id \<^verbatim>\<open>__proto__\<close> assigns \<^verbatim>\<open>Object.prototype.topPx\<close>, after which the name
  \<^verbatim>\<open>topPx\<close> is inherited too. The model does not follow that property; the statements about
  new ids leave the id \<^verbatim>\<open>topPx\<close> out.
\<close>

type_synonym store = "(string \<times> message) list"

definition protoNames :: "string list" where
  \<comment> \<open>the property names of \<^verbatim>\<open>Object.prototype\<close>; each holds a function, and \<^verbatim>\<open>__proto__\<close> reads
      as \<^verbatim>\<open>Object.prototype\<close> itself, so all of them are truthy\<close>
  "protoNames =
     [''constructor'', ''__defineGetter__'', ''__defineSetter__'', ''hasOwnProperty'',
      ''__lookupGetter__'', ''__lookupSetter__'', ''isPrototypeOf'', ''propertyIsEnumerable'',
      ''toString'', ''valueOf'', ''__proto__'', ''toLocaleString'']"

definition isDigit :: "char \<Rightarrow> bool" where
  "isDigit c \<longleftrightarrow> (let n = of_char c :: nat in 48 \<le> n \<and> n \<le> 57)"

fun digitsLe :: "string \<Rightarrow> string \<Rightarrow> bool" where
  \<comment> \<open>on two digit strings of one length: the first number is at most the second\<close>
  "digitsLe [] bs = True"
| "digitsLe (a # as) [] = False"
| "digitsLe (a # as) (b # bs) =
     ((of_char a :: nat) < of_char b \<or> (a = b \<and> digitsLe as bs))"

definition isArrayIndex :: "string \<Rightarrow> bool" where
  \<comment> \<open>a canonical decimal numeral of a number up to \<open>2\<^sup>3\<^sup>2 - 2\<close>\<close>
  "isArrayIndex s \<longleftrightarrow>
     s \<noteq> [] \<and> list_all isDigit s \<and> (length s = 1 \<or> hd s \<noteq> CHR ''0'') \<and>
     (length s < 10 \<or> (length s = 10 \<and> digitsLe s ''4294967294''))"

definition indexValue :: "string \<Rightarrow> nat" where
  "indexValue s = foldl (\<lambda>n c. 10 * n + (of_char c - 48)) 0 s"

definition ownEntries :: "store \<Rightarrow> store" where
  \<comment> \<open>the own properties in the order in which they are enumerated\<close>
  "ownEntries caps =
     sort_key (\<lambda>e. indexValue (fst e)) (filter (\<lambda>e. isArrayIndex (fst e)) caps)
     @ filter (\<lambda>e. \<not> isArrayIndex (fst e)) caps"

definition Object_keys :: "store \<Rightarrow> string list" where
  "Object_keys caps = map fst (ownEntries caps)"

definition Object_values :: "store \<Rightarrow> message list" where
  "Object_values caps = map snd (ownEntries caps)"

definition setTopPx :: "string \<Rightarrow> rat \<Rightarrow> store \<Rightarrow> store" where
  \<comment> \<open>\<^verbatim>\<open>capturedMessages[k].topPx = t\<close>\<close>
  "setTopPx k t caps = map (\<lambda>(k', r). if k' = k then (k', r\<lparr>topPx := t\<rparr>) else (k', r)) caps"

definition capture :: "message \<Rightarrow> store \<times> nat \<Rightarrow> store \<times> nat" where
  \<comment> \<open>lines 116 to 122: the body of the \<^verbatim>\<open>forEach\<close>, on the store and \<^verbatim>\<open>newCount\<close>\<close>
  "capture msg acc =
     (let caps = fst acc; newCount = snd acc
      in case map_of caps (id_str msg) of
           Some old \<Rightarrow> (setTopPx (id_str msg) (topPx msg) caps, newCount)
         | None \<Rightarrow>
             if id_str msg \<in> set protoNames
             then \<comment> \<open>the read finds the inherited value, and \<^verbatim>\<open>topPx\<close> is assigned on that value\<close>
                  (caps, newCount)
             else (caps @ [(id_str msg, msg)], newCount + 1))"

definition scanStore :: "(node list \<Rightarrow> string) \<Rightarrow> node list \<Rightarrow> store \<Rightarrow> store \<times> nat" where
  \<comment> \<open>lines 111 to 123 of \<^verbatim>\<open>scanVisibleMessages\<close>; the second argument is the document\<close>
  "scanStore innerHTML doc caps =
     fold (\<lambda>c acc. case parseMessageElement innerHTML (fst c) (snd c) of
                      None \<Rightarrow> acc
                    | Some msg \<Rightarrow> capture msg acc)
          (messageElements False doc) (caps, 0)"

section \<open>Ordering\<close>

fun insertBy :: "('a \<Rightarrow> 'a \<Rightarrow> rat) \<Rightarrow> 'a \<Rightarrow> 'a list \<Rightarrow> 'a list" where
  "insertBy cmp x [] = [x]"
| "insertBy cmp x (y # ys) = (if cmp x y \<le> 0 then x # y # ys else y # insertBy cmp x ys)"

definition js_sort :: "('a \<Rightarrow> 'a \<Rightarrow> rat) \<Rightarrow> 'a list \<Rightarrow> 'a list" where
  \<comment> \<open>\<^verbatim>\<open>Array.prototype.sort\<close> with a comparison function: a stable sort (ECMAScript 2019),
      here by insertion from the right\<close>
  "js_sort cmp xs = foldr (insertBy cmp) xs []"

definition getSortedMessages :: "store \<Rightarrow> message list" where
  "getSortedMessages caps = js_sort (\<lambda>a b. topPx a - topPx b) (Object_values caps)"


section \<open>The exports\<close>

definition message_body :: "message \<Rightarrow> string" where
  \<comment> \<open>line 306 of \<^verbatim>\<open>exportHTML\<close>: the content of the \<^verbatim>\<open>div\<close> of class \<^verbatim>\<open>body\<close>\<close>
  "message_body msg = (if contentHtml msg \<noteq> [] then contentHtml msg else escapeHtml (contentText msg))"

datatype json = JNull | JBool bool | JNum rat | JStr string | JArr "json list"
  | JObj "(string \<times> json) list"

definition message_json :: "message \<Rightarrow> json" where
  \<comment> \<open>a record as \<^verbatim>\<open>JSON.stringify\<close> sees it: its own properties in the order of line 92\<close>
  "message_json m =
     JObj [(''id'', JStr (id_str m)), (''role'', JStr (role m)),
           (''timestampText'', JStr (timestampText m)), (''topPx'', JNum (topPx m)),
           (''contentHtml'', JStr (contentHtml m)), (''contentText'', JStr (contentText m))]"

definition exportJSON :: "string \<Rightarrow> string \<Rightarrow> store \<Rightarrow> json" where
  \<comment> \<open>the value handed to \<^verbatim>\<open>JSON.stringify\<close>; the arguments are
      \<^verbatim>\<open>new Date().toISOString()\<close>, \<^verbatim>\<open>location.href\<close> and \<^verbatim>\<open>capturedMessages\<close>\<close>
  "exportJSON isoNow locationHref caps =
     JObj [(''exportedAt'', JStr isoNow), (''url'', JStr locationHref),
           (''messageCount'', JNum (of_nat (length (Object_keys caps)))),
           (''messages'', JArr (map message_json (getSortedMessages caps)))]"

definition json_field :: "string \<Rightarrow> json \<Rightarrow> json option" where
  "json_field k j = (case j of JObj fs \<Rightarrow> map_of fs k | _ \<Rightarrow> None)"

definition json_messages :: "json \<Rightarrow> json list" where
  \<comment> \<open>the property \<^verbatim>\<open>messages\<close> of an export\<close>
  "json_messages j = (case json_field ''messages'' j of Some (JArr ms) \<Rightarrow> ms | _ \<Rightarrow> [])"

definition message_of_json :: "json \<Rightarrow> message option" where
  \<comment> \<open>Modelled from the spec: reading a record of the message array back; the repository has
      no code that reloads an export.\<close>
  "message_of_json j =
     (case (json_field ''id'' j, json_field ''role'' j, json_field ''timestampText'' j,
            json_field ''topPx'' j, json_field ''contentHtml'' j, json_field ''contentText'' j) of
        (Some (JStr i), Some (JStr r), Some (JStr ts), Some (JNum t), Some (JStr h), Some (JStr x)) \<Rightarrow>
          Some \<lparr>id_str = i, role = r, timestampText = ts, topPx = t, contentHtml = h, contentText = x\<rparr>
      | _ \<Rightarrow> None)"

definition assign :: "string \<Rightarrow> message \<Rightarrow> store \<Rightarrow> store" where
  \<comment> \<open>\<^verbatim>\<open>obj[k] = v\<close>: a new property goes last, an existing one keeps its place\<close>
  "assign k v caps =
     (if k \<in> set (map fst caps) then map (\<lambda>(k', r). if k' = k then (k', v) else (k', r)) caps
      else caps @ [(k, v)])"

definition loadFrom :: "json list \<Rightarrow> store" where
  \<comment> \<open>Modelled from the spec: \<^verbatim>\<open>loadFrom\<close>, which loads a message array into a fresh empty store,
      keying each record by its id, in array order; the repository has no such function.\<close>
  "loadFrom js =
     fold (\<lambda>j caps. case message_of_json j of None \<Rightarrow> caps | Some m \<Rightarrow> assign (id_str m) m caps) js []"

section \<open>The content script's state, timers and durable storage\<close>

record sys =
  pathname :: string  \<comment> \<open>\<^verbatim>\<open>location.pathname\<close>\<close>
  capturedMessages :: store
  pendingSave :: bool
  isAutoScrolling :: bool
  clock :: nat  \<comment> \<open>milliseconds\<close>
  timers :: "nat list"  \<comment> \<open>when each pending callback of \<^verbatim>\<open>flushSave\<close> is due\<close>
  storage_local :: "string \<Rightarrow> store option"  \<comment> \<open>\<^verbatim>\<open>chrome.storage.local\<close>\<close>

definition loadMessages :: "sys \<Rightarrow> store" where
  "loadMessages st = (case storage_local st (getThreadKey (pathname st)) of None \<Rightarrow> [] | Some m \<Rightarrow> m)"

definition saveMessages :: "store \<Rightarrow> sys \<Rightarrow> sys" where
  "saveMessages messagesMap st =
     st\<lparr>storage_local := (storage_local st)(getThreadKey (pathname st) \<mapsto> messagesMap)\<rparr>"

definition saveCallback :: "sys \<Rightarrow> sys" where
  \<comment> \<open>lines 103 to 107: the function given to \<^verbatim>\<open>setTimeout\<close>; the awaited write and the
      reset of the flag are taken as one step\<close>
  "saveCallback st = (saveMessages (capturedMessages st) st)\<lparr>pendingSave := False\<rparr>"

definition flushSave :: "sys \<Rightarrow> sys" where
  "flushSave st =
     (if pendingSave st then st
      else st\<lparr>pendingSave := True, timers := timers st @ [clock st + 400]\<rparr>)"

definition advance :: "nat \<Rightarrow> sys \<Rightarrow> sys" where
  \<comment> \<open>the event loop while the script waits: time passes and the callbacks that fall due run\<close>
  "advance ms st =
     (let t = clock st + ms;
          st' = fold (\<lambda>d. saveCallback) (filter (\<lambda>d. d \<le> t) (timers st)) st
      in st'\<lparr>clock := t, timers := filter (\<lambda>d. t < d) (timers st)\<rparr>)"

definition scanVisibleMessages :: "(node list \<Rightarrow> string) \<Rightarrow> node list \<Rightarrow> sys \<Rightarrow> sys \<times> nat" where
  "scanVisibleMessages innerHTML doc st =
     (let r = scanStore innerHTML doc (capturedMessages st);
          st' = st\<lparr>capturedMessages := fst r\<rparr>;
          newCount = snd r
      in (if newCount > 0 then flushSave st' else st', newCount))"

subsection \<open>The popup\<close>

definition popup_getMessages :: "url \<Rightarrow> sys \<Rightarrow> store" where
  "popup_getMessages tabUrl st =
     (case storage_local st (popup_getThreadKey tabUrl) of None \<Rightarrow> [] | Some m \<Rightarrow> m)"

definition popup_clearMessages :: "url \<Rightarrow> sys \<Rightarrow> sys" where
  \<comment> \<open>\<^verbatim>\<open>chrome.storage.local.remove([key])\<close>\<close>
  "popup_clearMessages tabUrl st =
     st\<lparr>storage_local := (storage_local st)(popup_getThreadKey tabUrl := None)\<rparr>"

definition onMessage_clearMessages :: "(node list \<Rightarrow> string) \<Rightarrow> bool \<Rightarrow> node list \<Rightarrow> sys \<Rightarrow> sys" where
  \<comment> \<open>lines 708 to 712: the listener's case \<^verbatim>\<open>clearMessages\<close>. Its calls of \<^verbatim>\<open>updateButtonLabel\<close>
      and \<^verbatim>\<open>showToast\<close> change the children of \<^verbatim>\<open>document.body\<close> (the toast is appended to it),
      so the observer of lines 132 to 138, when it has been started (the second argument),
      runs \<^verbatim>\<open>scanVisibleMessages\<close> on the document (the third argument) once the listener has
      returned\<close>
  "onMessage_clearMessages innerHTML observing doc st =
     (let st' = st\<lparr>capturedMessages := []\<rparr>
      in if observing then fst (scanVisibleMessages innerHTML doc st') else st')"

definition btn_clear_onclick ::
  "bool \<Rightarrow> url \<Rightarrow> nat \<Rightarrow> (node list \<Rightarrow> string) \<Rightarrow> bool \<Rightarrow> node list \<Rightarrow> sys \<Rightarrow> sys" where
  \<comment> \<open>the handler of the popup's clear button; the first argument is the answer to
      \<^verbatim>\<open>confirm\<close>. The removal is awaited, then the message is sent; the content script
      receives it after the time given by the third argument, and what falls due in the
      content script in that time runs before the listener\<close>
  "btn_clear_onclick confirmed tabUrl latency innerHTML observing doc st =
     (if confirmed
      then onMessage_clearMessages innerHTML observing doc
             (advance latency (popup_clearMessages tabUrl st))
      else st)"

section \<open>The history-completion driver\<close>

datatype outcome = AlreadyRunning | NoContainer | Captured nat

partial_function (option) scrollLoop ::
  "(node list \<Rightarrow> string) \<Rightarrow> (nat \<Rightarrow> node list) \<Rightarrow> nat \<Rightarrow> nat \<Rightarrow> nat \<Rightarrow> sys \<Rightarrow> (nat \<times> sys) option" where
  "scrollLoop innerHTML page i lastCount stableRounds st =
     (if stableRounds < 3 then
        (let st' = fst (scanVisibleMessages innerHTML (page i) (advance 600 st));
             currentCount = length (Object_keys (capturedMessages st'))
         in if currentCount = lastCount
            then scrollLoop innerHTML page (i + 1) lastCount (stableRounds + 1) st'
            else scrollLoop innerHTML page (i + 1) currentCount 0 st')
      else Some (i, st))"

declare scrollLoop.simps [code]

definition autoScrollAndCapture ::
  "(node list \<Rightarrow> string) \<Rightarrow> (nat \<Rightarrow> node list) \<Rightarrow> element option \<Rightarrow> sys \<Rightarrow> (sys \<times> outcome \<times> nat) option" where
  \<comment> \<open>\<^verbatim>\<open>page i\<close> is the document that the scan of round \<open>i\<close> finds (rounds count from 0), after
      the scroll position has been set to 0 and the wait is over; the scroll position itself
      belongs to the page and is not part of the state. The third argument is the result of
      \<^verbatim>\<open>findScrollContainer()\<close>. The result is the final state, the toast shown (none when a run
      is active already) and the number of rounds made; \<open>None\<close> is a loop that never ends.\<close>
  "autoScrollAndCapture innerHTML page scrollEl st =
     (if isAutoScrolling st then Some (st, AlreadyRunning, 0)
      else case scrollEl of
             None \<Rightarrow> Some (st\<lparr>isAutoScrolling := False\<rparr>, NoContainer, 0)
           | Some e \<Rightarrow>
               (case scrollLoop innerHTML page 0 0 0 (st\<lparr>isAutoScrolling := True\<rparr>) of
                  None \<Rightarrow> None
                | Some (n, st') \<Rightarrow>
                    Some (st'\<lparr>isAutoScrolling := False\<rparr>,
                          Captured (length (Object_keys (capturedMessages st'))), n)))"

section \<open>Markup to Markdown\<close>

fun collapseNewlines :: "nat \<Rightarrow> string \<Rightarrow> string" where
  \<comment> \<open>\<^verbatim>\<open>.replace(/\n{3,}/g, '\n\n')\<close>; the first argument counts the newlines just read\<close>
  "collapseNewlines n [] = replicate (if 3 \<le> n then 2 else n) nl"
| "collapseNewlines n (c # cs) =
     (if c = nl then collapseNewlines (Suc n) cs
      else replicate (if 3 \<le> n then 2 else n) nl @ c # collapseNewlines 0 cs)"

definition isWordChar :: "char \<Rightarrow> bool" where
  \<comment> \<open>the class \<^verbatim>\<open>\w\<close>\<close>
  "isWordChar c \<longleftrightarrow> isAlnum c \<or> c = CHR ''_''"

fun matchLanguage :: "string \<Rightarrow> string" where
  \<comment> \<open>\<^verbatim>\<open>s.match(/language-(\w+)/)?.[1] || ''\<close>\<close>
  "matchLanguage [] = []"
| "matchLanguage (c # cs) =
     (if startsWith ''language-'' (c # cs) \<and> takeWhile isWordChar (drop 9 (c # cs)) \<noteq> []
      then takeWhile isWordChar (drop 9 (c # cs))
      else matchLanguage cs)"

fun show_nat :: "nat \<Rightarrow> string" where
  \<comment> \<open>a number in a template literal: its decimal digits\<close>
  "show_nat n =
     (if n < 10 then [char_of (48 + n)] else show_nat (n div 10) @ [char_of (48 + n mod 10)])"

declare show_nat.simps [simp del]

fun numberItems :: "nat \<Rightarrow> (node \<times> string) list \<Rightarrow> string list" where
  \<comment> \<open>the \<^verbatim>\<open>map\<close> of the case \<^verbatim>\<open>ol\<close>, on each child with its conversion; the first argument
      is the counter \<^verbatim>\<open>i\<close>\<close>
  "numberItems i [] = []"
| "numberItems i ((Element p cs, w) # rest) =
     (if tagName p = ''LI''
      then (show_nat (i + 1) @ ''. '' @ w @ [nl]) # numberItems (i + 1) rest
      else w # numberItems i rest)"
| "numberItems i ((other, w) # rest) = w # numberItems i rest"


definition codeOf :: "element \<Rightarrow> string \<times> string" where
  \<comment> \<open>lines 229 to 231: the language tag and the code of a \<^verbatim>\<open>pre\<close> element\<close>
  "codeOf el =
     (let codeEl = querySelector (isTag ''code'') el;
          lang = matchLanguage (case codeEl of None \<Rightarrow> [] | Some e \<Rightarrow> className (fst e));
          code = (case codeEl of None \<Rightarrow> textContent el | Some e \<Rightarrow> textContent e)
      in (lang, code))"

fun walk :: "bool \<Rightarrow> node \<Rightarrow> string" where
  \<comment> \<open>the flag tells whether the node lies below a \<^verbatim>\<open>pre\<close> element, which is what
      \<^verbatim>\<open>node.closest('pre')\<close> finds out for a \<^verbatim>\<open>code\<close> element\<close>
  "walk inPre (TextNode s) = s"
| "walk inPre (CommentNode s) = []"
| "walk inPre (Element p cs) =
     (let tag = toLowerCase (tagName p);
          ws = map (walk (inPre \<or> tag = ''pre'')) cs;
          children = concat ws
      in if tag = ''p'' then children @ [nl, nl]
         else if tag = ''br'' then [nl]
         else if tag = ''strong'' \<or> tag = ''b'' then ''**'' @ children @ ''**''
         else if tag = ''em'' \<or> tag = ''i'' then ''*'' @ children @ ''*''
         else if tag = ''code'' then (if inPre then children else ''`'' @ children @ ''`'')
         else if tag = ''pre'' then
           ''```'' @ fst (codeOf (p, cs)) @ [nl] @ snd (codeOf (p, cs)) @ [nl] @ ''```'' @ [nl, nl]
         else if tag = ''h1'' then ''# '' @ children @ [nl, nl]
         else if tag = ''h2'' then ''## '' @ children @ [nl, nl]
         else if tag = ''h3'' then ''### '' @ children @ [nl, nl]
         else if tag = ''h4'' then ''#### '' @ children @ [nl, nl]
         else if tag = ''ul'' then children @ [nl]
         else if tag = ''ol'' then concat (numberItems 0 (zip cs ws)) @ [nl]
         else if tag = ''li'' then ''- '' @ children
         else if tag = ''a'' then ''['' @ children @ '']('' @ (if href p \<noteq> [] then href p else ''#'') @ '')''
         else if tag = ''hr'' then ''---'' @ [nl, nl]
         else if tag = ''blockquote'' then ''> '' @ replaceAll nl (nl # ''> '') children @ [nl, nl]
         else children)"

definition divOf :: "node list \<Rightarrow> node" where
  \<comment> \<open>the detached \<^verbatim>\<open>div\<close> whose \<^verbatim>\<open>innerHTML\<close> has been set\<close>
  "divOf ns = Element \<lparr>tagName = ''DIV'', attributes = [], styleTop = None, href = []\<rparr> ns"

definition htmlToMarkdown :: "(string \<Rightarrow> node list) \<Rightarrow> string \<Rightarrow> string" where
  \<comment> \<open>the first argument is the browser's HTML parser behind the assignment to \<^verbatim>\<open>innerHTML\<close>\<close>
  "htmlToMarkdown parseHTML html = trim (collapseNewlines 0 (walk False (divOf (parseHTML html))))"

section \<open>Notions used in the statements and proofs\<close>

definition parsedMessages :: "(node list \<Rightarrow> string) \<Rightarrow> node list \<Rightarrow> message list" where
  \<comment> \<open>the records that one scan of the document parses, in document order\<close>
  "parsedMessages innerHTML doc =
     List.map_filter (\<lambda>c. parseMessageElement innerHTML (fst c) (snd c)) (messageElements False doc)"


definition wf_store :: "store \<Rightarrow> bool" where
  \<comment> \<open>what holds of every store the program builds: an object has each key once, and each
      record is filed under its own id\<close>
  "wf_store caps \<longleftrightarrow> distinct (map fst caps) \<and> (\<forall>e \<in> set caps. id_str (snd e) = fst e)"

fun scans :: "(node list \<Rightarrow> string) \<Rightarrow> (nat \<times> node list) list \<Rightarrow> sys \<Rightarrow> sys" where
  \<comment> \<open>a burst of scans: each is given the time since the one before and the document it finds\<close>
  "scans innerHTML [] st = st"
| "scans innerHTML (e # es) st =
     scans innerHTML es (fst (scanVisibleMessages innerHTML (snd e) (advance (fst e) st)))"

primrec storeAfter :: "(node list \<Rightarrow> string) \<Rightarrow> (nat \<Rightarrow> node list) \<Rightarrow> store \<Rightarrow> nat \<Rightarrow> store" where
  \<comment> \<open>the store after the scans of the first \<open>i\<close> rounds\<close>
  "storeAfter innerHTML page caps 0 = caps"
| "storeAfter innerHTML page caps (Suc i) =
     fst (scanStore innerHTML (page i) (storeAfter innerHTML page caps i))"

primrec roundState :: "(node list \<Rightarrow> string) \<Rightarrow> (nat \<Rightarrow> node list) \<Rightarrow> sys \<Rightarrow> nat \<Rightarrow> sys" where
  \<comment> \<open>the state after the first \<open>i\<close> rounds of the loop: each waits 600 ms and scans\<close>
  "roundState innerHTML page st 0 = st"
| "roundState innerHTML page st (Suc i) =
     fst (scanVisibleMessages innerHTML (page i) (advance 600 (roundState innerHTML page st i)))"

definition countAfter :: "(node list \<Rightarrow> string) \<Rightarrow> (nat \<Rightarrow> node list) \<Rightarrow> store \<Rightarrow> nat \<Rightarrow> nat" where
  "countAfter innerHTML page caps i = length (Object_keys (storeAfter innerHTML page caps i))"

definition unchanged :: "(node list \<Rightarrow> string) \<Rightarrow> (nat \<Rightarrow> node list) \<Rightarrow> store \<Rightarrow> nat \<Rightarrow> bool" where
  \<comment> \<open>what the test \<^verbatim>\<open>currentCount === lastCount\<close> finds in round \<open>j\<close>: the count after the round
      against the count after the round before, and against 0 in the first round\<close>
  "unchanged innerHTML page caps j \<longleftrightarrow>
     countAfter innerHTML page caps (Suc j) = (if j = 0 then 0 else countAfter innerHTML page caps j)"

definition settled :: "(node list \<Rightarrow> string) \<Rightarrow> (nat \<Rightarrow> node list) \<Rightarrow> store \<Rightarrow> nat \<Rightarrow> bool" where
  \<comment> \<open>the last three of the first \<open>n\<close> rounds found the count unchanged\<close>
  "settled innerHTML page caps n \<longleftrightarrow>
     3 \<le> n \<and> unchanged innerHTML page caps (n - 1) \<and> unchanged innerHTML page caps (n - 2)
     \<and> unchanged innerHTML page caps (n - 3)"

definition loopInv ::
  "(node list \<Rightarrow> string) \<Rightarrow> (nat \<Rightarrow> node list) \<Rightarrow> store \<Rightarrow> nat \<Rightarrow> nat \<Rightarrow> nat \<Rightarrow> bool" where
  \<comment> \<open>what holds of \<^verbatim>\<open>lastCount\<close> and \<^verbatim>\<open>stableRounds\<close> when round \<open>i\<close> is about to start\<close>
  "loopInv innerHTML page caps i lastCount stableRounds \<longleftrightarrow>
     stableRounds \<le> 3 \<and> stableRounds \<le> i \<and>
     lastCount = (if i = 0 then 0 else countAfter innerHTML page caps i) \<and>
     (\<forall>j. i - stableRounds \<le> j \<and> j < i \<longrightarrow> unchanged innerHTML page caps j) \<and>
     (stableRounds < i \<longrightarrow> \<not> unchanged innerHTML page caps (i - stableRounds - 1)) \<and>
     (\<forall>n. n < i \<longrightarrow> \<not> settled innerHTML page caps n)"

definition valuesOrder :: "message list \<Rightarrow> message list" where
  \<comment> \<open>the order of \<^verbatim>\<open>Object.values\<close> on records that are filed under their own ids, given in
      the order of their creation\<close>
  "valuesOrder ms =
     sort_key (\<lambda>m. indexValue (id_str m)) (filter (\<lambda>m. isArrayIndex (id_str m)) ms)
     @ filter (\<lambda>m. \<not> isArrayIndex (id_str m)) ms"

section \<open>Concrete inputs\<close>

definition script_message :: message where
  "script_message = \<lparr>id_str = ''umsg_1'', role = ''user'', timestampText = [], topPx = 0,
     contentHtml = [], contentText = ''a<script>b&c</script>''\<rparr>"

definition tab_example :: url where
  "tab_example = \<lparr>url_hostname = ''lovable.dev'', url_pathname = ''/projects/abc/''\<rparr>"

definition sys_example :: sys where
  "sys_example = \<lparr>pathname = ''/projects/abc/'', capturedMessages = [], pendingSave = False,
     isAutoScrolling = False, clock = 0, timers = [], storage_local = (\<lambda>k. None)\<rparr>"

definition msgA :: message where
  "msgA = \<lparr>id_str = ''aimsg_2'', role = ''ai'', timestampText = [], topPx = 200,
     contentHtml = [], contentText = ''two''\<rparr>"

definition msgB :: message where
  "msgB = \<lparr>id_str = ''umsg_1'', role = ''user'', timestampText = [], topPx = 50,
     contentHtml = [], contentText = ''one''\<rparr>"

definition msgC :: message where
  "msgC = \<lparr>id_str = ''aimsg_3'', role = ''ai'', timestampText = [], topPx = 200,
     contentHtml = [], contentText = ''three''\<rparr>"

definition store_example :: store where
  "store_example = [(''aimsg_2'', msgA), (''umsg_1'', msgB), (''aimsg_3'', msgC)]"

definition plainSerialiser :: "node list \<Rightarrow> string" where
  \<comment> \<open>stands for the browser's serialiser in the concrete inputs: it writes the text only\<close>
  "plainSerialiser ns = concat (map nodeText ns)"

definition mkProps :: "string \<Rightarrow> (string \<times> string) list \<Rightarrow> rat option \<Rightarrow> props" where
  "mkProps t as y = \<lparr>tagName = t, attributes = as, styleTop = y, href = []\<rparr>"

definition doc_first :: "node list" where
  \<comment> \<open>a user message at offset 50 and an answer at offset 200\<close>
  "doc_first =
     [Element (mkProps ''DIV'' [(''data-message-id'', ''umsg_1'')] (Some 50))
        [Element (mkProps ''DIV'' [(''class'', ''prose'')] None) [TextNode ''hello'']],
      Element (mkProps ''DIV'' [(''data-message-id'', ''aimsg_2'')] (Some 200))
        [Element (mkProps ''DIV'' [(''class'', ''prose'')] None) [TextNode ''hi'']]]"

definition doc_second :: "node list" where
  \<comment> \<open>the user message again, at offset 80 and with another text\<close>
  "doc_second =
     [Element (mkProps ''DIV'' [(''data-message-id'', ''umsg_1'')] (Some 80))
        [Element (mkProps ''DIV'' [(''class'', ''prose'')] None) [TextNode ''changed'']]]"

definition first_user :: message where
  "first_user = \<lparr>id_str = ''umsg_1'', role = ''user'', timestampText = [], topPx = 50,
     contentHtml = ''hello'', contentText = ''hello''\<rparr>"

definition first_ai :: message where
  "first_ai = \<lparr>id_str = ''aimsg_2'', role = ''ai'', timestampText = [], topPx = 200,
     contentHtml = ''hi'', contentText = ''hi''\<rparr>"

definition second_user :: message where
  "second_user = \<lparr>id_str = ''umsg_1'', role = ''user'', timestampText = [], topPx = 80,
     contentHtml = ''changed'', contentText = ''changed''\<rparr>"

definition store_first :: store where
  "store_first = [(''umsg_1'', first_user), (''aimsg_2'', first_ai)]"

definition sys_busy :: sys where
  \<comment> \<open>three records captured and saved, a further write pending and due at 400\<close>
  "sys_busy = \<lparr>pathname = ''/projects/abc/'', capturedMessages = store_example,
     pendingSave = True, isAutoScrolling = False, clock = 100, timers = [400],
     storage_local = (\<lambda>k. if k = ''lce_thread_L3Byb2plY3RzL2FiYw__'' then Some store_example
                            else None)\<rparr>"

definition ol_example :: "node list" where
  \<comment> \<open>the tree of \<^verbatim>\<open><ol><li>a</li><li>b</li></ol>\<close>\<close>
  "ol_example =
     [Element (mkProps ''OL'' [] None)
        [Element (mkProps ''LI'' [] None) [TextNode ''a''],
         Element (mkProps ''LI'' [] None) [TextNode ''b'']]]"

definition date_only :: "node list" where
  \<comment> \<open>the children of a candidate with a date label and no element after it\<close>
  "date_only =
     [Element (mkProps ''SPAN'' [(''class'', ''text-muted-foreground font-medium'')] None)
        [TextNode '' Jan 5 '']]"

definition date_and_time :: "node list" where
  "date_and_time =
     [Element (mkProps ''DIV'' [] None)
        [Element (mkProps ''SPAN'' [(''class'', ''text-muted-foreground font-medium'')] None)
           [TextNode '' Jan 5 ''],
         TextNode '' '',
         Element (mkProps ''SPAN'' [] None) [TextNode ''10:42 '']]]"

definition sys_loaded :: sys where
  \<comment> \<open>two records captured before the run starts\<close>
  "sys_loaded = \<lparr>pathname = ''/projects/abc/'', capturedMessages = store_first,
     pendingSave = False, isAutoScrolling = False, clock = 0, timers = [],
     storage_local = (\<lambda>k. None)\<rparr>"

definition scroller :: element where
  "scroller = (mkProps ''MAIN'' [] None, [])"

definition page_static :: "nat \<Rightarrow> node list" where
  \<comment> \<open>a page that shows the same user message in every round\<close>
  "page_static i = doc_second"

definition store_static :: store where
  "store_static = [(''umsg_1'', first_user\<lparr>topPx := 80\<rparr>), (''aimsg_2'', first_ai)]"

definition parse_example :: "string \<Rightarrow> node list" where
  \<comment> \<open>stands for the browser's parser on the one input used\<close>
  "parse_example html = (if html = ''<ol><li>a</li><li>b</li></ol>'' then ol_example else [])"

definition msg10 :: message where
  "msg10 = \<lparr>id_str = ''10'', role = ''ai'', timestampText = [], topPx = 5,
     contentHtml = [], contentText = ''ten''\<rparr>"

definition msg9 :: message where
  "msg9 = \<lparr>id_str = ''9'', role = ''ai'', timestampText = [], topPx = 5,
     contentHtml = [], contentText = ''nine''\<rparr>"

definition store_indexed :: store where
  \<comment> \<open>the record with id 10 was inserted first\<close>
  "store_indexed = [(''10'', msg10), (''9'', msg9)]"



section \<open>Properties\<close>

subsection \<open>Escaping\<close>

lemma escapeHtml_Nil: "escapeHtml [] = []"
  by (simp add: escapeHtml_def replaceAll_def)

lemma escapeHtml_Cons: "escapeHtml (c # s) = spec_escape_char c @ escapeHtml s"
  by (simp add: escapeHtml_def replaceAll_def spec_escape_char_def)

lemma escapeHtml_spec: "escapeHtml s = concat (map spec_escape_char s)"
  by (induction s) (simp_all add: escapeHtml_Nil escapeHtml_Cons)

lemma escapeHtml_no_lt: "CHR ''<'' \<notin> set (escapeHtml s)"
  by (induction s) (auto simp: escapeHtml_Nil escapeHtml_Cons spec_escape_char_def)

lemma escapeHtml_no_gt: "CHR ''>'' \<notin> set (escapeHtml s)"
  by (induction s) (auto simp: escapeHtml_Nil escapeHtml_Cons spec_escape_char_def)

text \<open>
  C9. For a record whose \<^verbatim>\<open>contentHtml\<close> is empty, the body that the HTML export emits is
  \<^verbatim>\<open>escapeHtml(contentText)\<close>: every \<^verbatim>\<open>&\<close>, \<^verbatim>\<open><\<close> and \<^verbatim>\<open>>\<close> of the text is replaced by
  \<^verbatim>\<open>&amp;\<close>, \<^verbatim>\<open>&lt;\<close> and \<^verbatim>\<open>&gt;\<close>, every other character is kept, and the body contains
  neither \<^verbatim>\<open><\<close> nor \<^verbatim>\<open>>\<close>.
\<close>

theorem C9_fallback_is_escaped:
  assumes "contentHtml msg = []"
  shows "message_body msg = escapeHtml (contentText msg) \<and>
         message_body msg = concat (map spec_escape_char (contentText msg)) \<and>
         CHR ''<'' \<notin> set (message_body msg) \<and> CHR ''>'' \<notin> set (message_body msg)"
proof -
  have body: "message_body msg = escapeHtml (contentText msg)"
    using assms by (simp add: message_body_def)
  moreover have "escapeHtml (contentText msg) = concat (map spec_escape_char (contentText msg))"
    by (rule escapeHtml_spec)
  ultimately show ?thesis
    using escapeHtml_no_lt [of "contentText msg"] escapeHtml_no_gt [of "contentText msg"]
    by metis
qed

theorem C9_witness:
  "contentHtml script_message = [] \<and>
   message_body script_message = ''a&lt;script&gt;b&amp;c&lt;/script&gt;'' \<and>
   CHR ''<'' \<notin> set (message_body script_message) \<and> CHR ''>'' \<notin> set (message_body script_message)"
  using C9_fallback_is_escaped [of script_message]
  by (simp add: script_message_def spec_escape_char_def message_body_def escapeHtml_def
      replaceAll_def)

subsection \<open>Thread keys\<close>

text \<open>
  C10. When the URL of the tab has the path of the page, the popup's \<^verbatim>\<open>getThreadKey\<close> and the
  content script's \<^verbatim>\<open>getThreadKey\<close> give the same key. So the popup reads the record that the
  content script saves, its message count is the count of the record that the content script
  loads, and its removal removes that record.
\<close>

theorem C10_same_key:
  assumes "url_pathname tabUrl = pathname st"
  shows "popup_getThreadKey tabUrl = getThreadKey (pathname st) \<and>
         popup_getMessages tabUrl (saveMessages caps st) = caps \<and>
         popup_getMessages tabUrl st = loadMessages st \<and>
         loadMessages (popup_clearMessages tabUrl st) = []"
  using assms
  by (simp add: popup_getThreadKey_def getThreadKey_def popup_getMessages_def
      saveMessages_def loadMessages_def popup_clearMessages_def)

theorem C10_witness:
  "url_pathname tab_example = pathname sys_example \<and>
   popup_getThreadKey tab_example = ''lce_thread_L3Byb2plY3RzL2FiYw__'' \<and>
   getThreadKey (pathname sys_example) = ''lce_thread_L3Byb2plY3RzL2FiYw__'' \<and>
   popup_getMessages tab_example (saveMessages [(''umsg_1'', script_message)] sys_example)
     = [(''umsg_1'', script_message)]"
  using C10_same_key [of tab_example sys_example "[(''umsg_1'', script_message)]"]
  by (simp add: tab_example_def sys_example_def getThreadKey_def stripTrailingSlash_def
      STORAGE_KEY_PREFIX_def b64digit_def isAlnum_def)

subsection \<open>Ordering\<close>

lemma insertBy_topPx: "insertBy (\<lambda>a b. topPx a - topPx b) x ys = insort_key topPx x ys"
  by (induction ys) simp_all

lemma js_sort_topPx: "js_sort (\<lambda>a b. topPx a - topPx b) xs = sort_key topPx xs"
  by (induction xs) (simp_all add: js_sort_def sort_key_def insertBy_topPx)

lemma getSortedMessages_sort_key: "getSortedMessages caps = sort_key topPx (Object_values caps)"
  by (simp add: getSortedMessages_def js_sort_topPx)

lemma mset_ownEntries: "mset (ownEntries caps) = mset caps"
  by (simp add: ownEntries_def)

lemma length_ownEntries: "length (ownEntries caps) = length caps"
  using mset_ownEntries [of caps] by (metis size_mset)

lemma length_Object_keys: "length (Object_keys caps) = length caps"
  by (simp add: Object_keys_def length_ownEntries)

lemma set_Object_keys: "set (Object_keys caps) = set (map fst caps)"
  using mset_ownEntries [of caps] by (metis Object_keys_def mset_map set_mset_mset)

lemma mset_Object_values: "mset (Object_values caps) = mset (map snd caps)"
  using mset_ownEntries [of caps] by (metis Object_values_def mset_map)

lemma ownEntries_plain:
  assumes "\<forall>e \<in> set caps. \<not> isArrayIndex (fst e)"
  shows "ownEntries caps = caps"
proof -
  have "filter (\<lambda>e. isArrayIndex (fst e)) caps = []"
    using assms by (simp add: filter_empty_conv)
  moreover have "filter (\<lambda>e. \<not> isArrayIndex (fst e)) caps = caps"
    using assms by (simp add: filter_id_conv)
  ultimately show ?thesis by (simp add: ownEntries_def)
qed

text \<open>
  C2 (as amended). \<^verbatim>\<open>getSortedMessages\<close> returns the records of the store in ascending order of
  \<^verbatim>\<open>topPx\<close>: the result is sorted, it has the records of the store and no others, and for every
  value of \<^verbatim>\<open>topPx\<close> the records with that value come in the order in which \<^verbatim>\<open>Object.values\<close>
  lists them. When no id of the store is an array index, that is the order of their
  insertion.
\<close>

theorem C2_sorted_stable:
  "sorted (map topPx (getSortedMessages caps)) \<and>
   mset (getSortedMessages caps) = mset (map snd caps) \<and>
   (\<forall>k. filter (\<lambda>m. topPx m = k) (getSortedMessages caps)
        = filter (\<lambda>m. topPx m = k) (Object_values caps)) \<and>
   ((\<forall>e \<in> set caps. \<not> isArrayIndex (fst e)) \<longrightarrow>
      Object_values caps = map snd caps \<and>
      (\<forall>k. filter (\<lambda>m. topPx m = k) (getSortedMessages caps)
           = filter (\<lambda>m. topPx m = k) (map snd caps)))"
proof -
  have a: "sorted (map topPx (getSortedMessages caps))"
    by (simp add: getSortedMessages_sort_key)
  have b: "mset (getSortedMessages caps) = mset (map snd caps)"
    by (simp add: getSortedMessages_sort_key mset_Object_values)
  have c: "\<forall>k. filter (\<lambda>m. topPx m = k) (getSortedMessages caps)
        = filter (\<lambda>m. topPx m = k) (Object_values caps)"
    by (simp add: getSortedMessages_sort_key sort_key_stable)
  have d: "(\<forall>e \<in> set caps. \<not> isArrayIndex (fst e)) \<longrightarrow> Object_values caps = map snd caps"
    by (simp add: Object_values_def ownEntries_plain)
  from a b c d show ?thesis by simp
qed

lemma plain_store_example: "\<forall>e \<in> set store_example. \<not> isArrayIndex (fst e)"
  by (simp add: store_example_def isArrayIndex_def isDigit_def)

lemma sorted_store_example: "getSortedMessages store_example = [msgB, msgA, msgC]"
proof -
  have "Object_values store_example = map snd store_example"
    by (simp only: Object_values_def ownEntries_plain [OF plain_store_example])
  then have "getSortedMessages store_example
      = js_sort (\<lambda>a b. topPx a - topPx b) (map snd store_example)"
    by (simp only: getSortedMessages_def)
  then show ?thesis
    by (simp add: store_example_def js_sort_def msgA_def msgB_def msgC_def)
qed

theorem C2_witness:
  "getSortedMessages store_example = [msgB, msgA, msgC] \<and>
   sorted (map topPx (getSortedMessages store_example)) \<and>
   map snd store_example = [msgA, msgB, msgC] \<and>
   filter (\<lambda>m. topPx m = 200) (getSortedMessages store_example) = [msgA, msgC]"
proof -
  have "filter (\<lambda>m. topPx m = 200) (getSortedMessages store_example)
      = filter (\<lambda>m. topPx m = 200) (map snd store_example)"
    using C2_sorted_stable [of store_example] plain_store_example by blast
  moreover have "filter (\<lambda>m. topPx m = 200) (map snd store_example) = [msgA, msgC]"
    by (simp add: store_example_def msgA_def msgB_def msgC_def)
  moreover have "sorted (map topPx (getSortedMessages store_example))"
    using C2_sorted_stable [of store_example] by blast
  ultimately show ?thesis
    by (simp add: sorted_store_example) (simp add: store_example_def)
qed

text \<open>
  The claim C2 as stated fails: the records with the ids 10 and 9, inserted in this order and
  with one \<^verbatim>\<open>topPx\<close>, come out with 9 first.
\<close>

theorem C2_counterexample:
  "fst (capture msg9 (capture msg10 ([], 0))) = store_indexed \<and>
   map snd store_indexed = [msg10, msg9] \<and>
   topPx msg10 = topPx msg9 \<and>
   getSortedMessages store_indexed = [msg9, msg10] \<and>
   [msg9, msg10] \<noteq> [msg10, msg9]"
  by (simp add: capture_def protoNames_def store_indexed_def msg9_def msg10_def
      getSortedMessages_def Object_values_def ownEntries_def isArrayIndex_def isDigit_def
      indexValue_def js_sort_def)

subsection \<open>The store\<close>


lemma keys_setTopPx: "map fst (setTopPx k t caps) = map fst caps"
  by (induction caps) (auto simp: setTopPx_def)


lemma capture_old:
  "map_of caps (id_str msg) = Some old \<Longrightarrow>
   capture msg (caps, n) = (setTopPx (id_str msg) (topPx msg) caps, n)"
  by (simp add: capture_def)

lemma capture_new:
  "map_of caps (id_str msg) = None \<Longrightarrow> id_str msg \<notin> set protoNames \<Longrightarrow>
   capture msg (caps, n) = (caps @ [(id_str msg, msg)], n + 1)"
  by (simp add: capture_def)

lemma capture_inherited:
  "map_of caps (id_str msg) = None \<Longrightarrow> id_str msg \<in> set protoNames \<Longrightarrow>
   capture msg (caps, n) = (caps, n)"
  by (simp add: capture_def)

lemma fold_option_map_filter:
  "fold (\<lambda>c acc. case f c of None \<Rightarrow> acc | Some m \<Rightarrow> g m acc) cs acc = fold g (List.map_filter f cs) acc"
  by (induction cs arbitrary: acc) (auto simp: List.map_filter_simps split: option.splits)

lemma scanStore_fold: "scanStore innerHTML doc caps = fold capture (parsedMessages innerHTML doc) (caps, 0)"
  by (simp add: scanStore_def parsedMessages_def fold_option_map_filter)







lemma keys_capture:
  "set (map fst (fst (capture m acc)))
     = (if map_of (fst acc) (id_str m) = None \<and> id_str m \<in> set protoNames
        then set (map fst (fst acc)) else insert (id_str m) (set (map fst (fst acc))))"
proof (cases "map_of (fst acc) (id_str m)")
  case None
  then show ?thesis
    by (cases acc) (cases "id_str m \<in> set protoNames", simp_all add: capture_new capture_inherited)
next
  case (Some old)
  then have "id_str m \<in> set (map fst (fst acc))"
    by (metis map_of_eq_None_iff option.distinct(1) set_map)
  with Some show ?thesis
    by (cases acc) (auto simp: capture_old keys_setTopPx simp del: set_map)
qed

lemma keys_fold_capture:
  "set (map fst (fst acc)) \<subseteq> set (map fst (fst (fold capture ms acc))) \<and>
   set (map fst (fst (fold capture ms acc))) \<subseteq> set (map fst (fst acc)) \<union> id_str ` set ms \<and>
   id_str ` set ms \<subseteq> set (map fst (fst (fold capture ms acc))) \<union> set protoNames"
proof (induction ms arbitrary: acc)
  case Nil
  show ?case by simp
next
  case (Cons m ms)
  show ?case
    using Cons.IH [of "capture m acc"] keys_capture [of m acc]
    by (auto split: if_splits simp del: set_map)
qed




lemma scan_first: "scanStore plainSerialiser doc_first [] = (store_first, 2)"
  by code_simp




subsection \<open>The JSON export\<close>

lemma message_of_json_inverse: "message_of_json (message_json m) = Some m"
  by (cases m) (simp add: message_of_json_def message_json_def json_field_def)

lemma json_messages_exportJSON:
  "json_messages (exportJSON isoNow pageUrl caps) = map message_json (getSortedMessages caps)"
  by (simp add: json_messages_def exportJSON_def json_field_def)

lemma assign_fresh: "k \<notin> set (map fst caps) \<Longrightarrow> assign k v caps = caps @ [(k, v)]"
  by (simp add: assign_def)

lemma fold_load_distinct:
  "distinct (map fst acc @ map id_str ms) \<Longrightarrow>
   fold (\<lambda>j caps. case message_of_json j of None \<Rightarrow> caps | Some m \<Rightarrow> assign (id_str m) m caps)
        (map message_json ms) acc
   = acc @ map (\<lambda>m. (id_str m, m)) ms"
proof (induction ms arbitrary: acc)
  case Nil
  show ?case by simp
next
  case (Cons m ms)
  from Cons.prems have fresh: "id_str m \<notin> set (map fst acc)" by auto
  from Cons.prems have "distinct (map fst (acc @ [(id_str m, m)]) @ map id_str ms)" by auto
  from Cons.IH [OF this] show ?case
    by (simp add: message_of_json_inverse assign_fresh [OF fresh])
qed

lemma loadFrom_distinct:
  "distinct (map id_str ms) \<Longrightarrow> loadFrom (map message_json ms) = map (\<lambda>m. (id_str m, m)) ms"
  using fold_load_distinct [of "[]" ms] by (simp add: loadFrom_def)

lemma wf_ids: "wf_store caps \<Longrightarrow> map id_str (map snd caps) = map fst caps"
  by (induction caps) (auto simp: wf_store_def)

lemma distinct_ids_sorted:
  assumes "wf_store caps"
  shows "distinct (map id_str (getSortedMessages caps))"
proof -
  have "mset (getSortedMessages caps) = mset (map snd caps)"
    by (simp add: getSortedMessages_sort_key mset_Object_values)
  then have "mset (map id_str (getSortedMessages caps)) = mset (map id_str (map snd caps))"
    by (metis mset_map)
  then have "distinct (map id_str (getSortedMessages caps)) \<longleftrightarrow> distinct (map id_str (map snd caps))"
    by (rule mset_eq_imp_distinct_iff)
  moreover have "distinct (map id_str (map snd caps))"
    using assms wf_ids [OF assms] by (simp only: wf_store_def)
  ultimately show ?thesis by blast
qed

lemma sort_key_map_key: "sort_key f (map g xs) = map g (sort_key (\<lambda>x. f (g x)) xs)"
proof (induction xs)
  case Nil
  show ?case by simp
next
  case (Cons x xs)
  have "insort_key f (g x) (map g ys) = map g (insort_key (\<lambda>x. f (g x)) x ys)" for ys
    by (induction ys) simp_all
  with Cons show ?case by simp
qed

lemma Object_values_keyed: "Object_values (map (\<lambda>m. (id_str m, m)) ms) = valuesOrder ms"
  by (simp add: Object_values_def ownEntries_def valuesOrder_def filter_map sort_key_map_key
      comp_def)

lemma wf_keyed: "wf_store caps \<Longrightarrow> caps = map (\<lambda>m. (id_str m, m)) (map snd caps)"
  by (induction caps) (auto simp: wf_store_def)

lemma Object_values_wf: "wf_store caps \<Longrightarrow> Object_values caps = valuesOrder (map snd caps)"
  using Object_values_keyed [of "map snd caps"] wf_keyed [of caps] by simp

lemma filter_valuesOrder: "filter P (valuesOrder ms) = valuesOrder (filter P ms)"
  by (simp add: valuesOrder_def filter_sort conj_commute)

lemma valuesOrder_idem: "valuesOrder (valuesOrder ms) = valuesOrder ms"
proof -
  let ?A = "sort_key (\<lambda>m. indexValue (id_str m)) (filter (\<lambda>m. isArrayIndex (id_str m)) ms)"
  let ?B = "filter (\<lambda>m. \<not> isArrayIndex (id_str m)) ms"
  have a: "filter (\<lambda>m. isArrayIndex (id_str m)) (?A @ ?B) = ?A"
    by (simp add: filter_sort)
  have b: "filter (\<lambda>m. \<not> isArrayIndex (id_str m)) (?A @ ?B) = ?B"
    by (simp add: filter_sort)
  have "sort_key (\<lambda>m. indexValue (id_str m)) ?A = ?A"
    by (rule sort_key_id_if_sorted) simp
  with a b show ?thesis
    by (simp only: valuesOrder_def)
qed

lemma sorted_valuesOrder_again:
  "sort_key topPx (valuesOrder (sort_key topPx (valuesOrder vs))) = sort_key topPx (valuesOrder vs)"
proof (rule properties_for_sort_key)
  let ?ms = "sort_key topPx (valuesOrder vs)"
  show "mset ?ms = mset (valuesOrder ?ms)"
    by (simp add: valuesOrder_def)
  show "sorted (map topPx ?ms)"
    by simp
  fix k assume "k \<in> set ?ms"
  let ?P = "\<lambda>x. topPx k = topPx x"
  have stable: "filter ?P (sort_key topPx xs) = filter ?P xs" for xs
    using sort_key_stable [of topPx "topPx k" xs] by (simp add: eq_commute)
  have "filter ?P (valuesOrder ?ms) = valuesOrder (filter ?P ?ms)"
    by (rule filter_valuesOrder)
  also have "\<dots> = valuesOrder (filter ?P (valuesOrder vs))"
    by (simp only: stable)
  also have "\<dots> = valuesOrder (valuesOrder (filter ?P vs))"
    by (simp only: filter_valuesOrder)
  also have "\<dots> = valuesOrder (filter ?P vs)"
    by (rule valuesOrder_idem)
  also have "\<dots> = filter ?P (valuesOrder vs)"
    by (simp only: filter_valuesOrder)
  also have "\<dots> = filter ?P ?ms"
    by (simp only: stable)
  finally show "filter ?P ?ms = filter ?P (valuesOrder ?ms)" by simp
qed

text \<open>
  C3. For a store in which each record is filed under its own id, the message array of the
  JSON export reads back record for record and field for field; loading it into an empty
  store, each record under its id and in the order of the array, gives a store whose sorted
  sequence is the sorted sequence of the original store.
\<close>

theorem C3_json_round_trip:
  assumes "wf_store caps"
  shows "map message_of_json (json_messages (exportJSON isoNow pageUrl caps))
           = map Some (getSortedMessages caps) \<and>
         loadFrom (json_messages (exportJSON isoNow pageUrl caps))
           = map (\<lambda>m. (id_str m, m)) (getSortedMessages caps) \<and>
         getSortedMessages (loadFrom (json_messages (exportJSON isoNow pageUrl caps)))
           = getSortedMessages caps"
proof -
  let ?ms = "getSortedMessages caps"
  have a: "map message_of_json (json_messages (exportJSON isoNow pageUrl caps)) = map Some ?ms"
    by (simp add: json_messages_exportJSON message_of_json_inverse comp_def)
  have b: "loadFrom (json_messages (exportJSON isoNow pageUrl caps)) = map (\<lambda>m. (id_str m, m)) ?ms"
    using loadFrom_distinct [OF distinct_ids_sorted [OF assms]]
    by (simp add: json_messages_exportJSON)
  have ms: "?ms = sort_key topPx (valuesOrder (map snd caps))"
    by (simp only: getSortedMessages_sort_key Object_values_wf [OF assms])
  have "getSortedMessages (map (\<lambda>m. (id_str m, m)) ?ms) = sort_key topPx (valuesOrder ?ms)"
    by (simp only: getSortedMessages_sort_key Object_values_keyed)
  also have "\<dots> = ?ms"
    unfolding ms by (rule sorted_valuesOrder_again)
  finally show ?thesis using a b by simp
qed

lemma wf_store_Nil: "wf_store []"
  by (simp add: wf_store_def)

lemma ids_setTopPx:
  "\<forall>e \<in> set caps. id_str (snd e) = fst e \<Longrightarrow> \<forall>e \<in> set (setTopPx k t caps). id_str (snd e) = fst e"
  by (induction caps) (auto simp: setTopPx_def)

lemma wf_setTopPx: "wf_store caps \<Longrightarrow> wf_store (setTopPx k t caps)"
  unfolding wf_store_def keys_setTopPx using ids_setTopPx by blast

lemma wf_capture: "wf_store (fst acc) \<Longrightarrow> wf_store (fst (capture m acc))"
proof (cases "map_of (fst acc) (id_str m)")
  case None
  assume "wf_store (fst acc)"
  moreover from None have "id_str m \<notin> set (map fst (fst acc))"
    by (simp add: map_of_eq_None_iff)
  ultimately show ?thesis
    using None
    by (cases acc) (cases "id_str m \<in> set protoNames", auto simp: capture_new capture_inherited wf_store_def)
next
  case (Some old)
  assume "wf_store (fst acc)"
  then show ?thesis
    using Some by (cases acc) (simp add: capture_old wf_setTopPx)
qed

lemma wf_scanStore: "wf_store caps \<Longrightarrow> wf_store (fst (scanStore innerHTML doc caps))"
proof -
  have "wf_store (fst acc) \<Longrightarrow> wf_store (fst (fold capture ms acc))" for ms acc
    by (induction ms arbitrary: acc) (simp_all add: wf_capture)
  from this [of "(caps, 0)"] show "wf_store caps \<Longrightarrow> wf_store (fst (scanStore innerHTML doc caps))"
    by (simp add: scanStore_fold)
qed

theorem C3_witness:
  "wf_store store_example \<and>
   getSortedMessages (loadFrom (json_messages (exportJSON ''2026-01-05T10:00:00.000Z''
       ''https://lovable.dev/projects/abc'' store_example)))
     = [msgB, msgA, msgC]"
proof -
  have wf: "wf_store store_example"
    by (simp add: wf_store_def store_example_def msgA_def msgB_def msgC_def)
  have "getSortedMessages store_example = [msgB, msgA, msgC]"
    by (rule sorted_store_example)
  moreover have "getSortedMessages (loadFrom (json_messages (exportJSON ''2026-01-05T10:00:00.000Z''
       ''https://lovable.dev/projects/abc'' store_example))) = getSortedMessages store_example"
    using C3_json_round_trip [OF wf] by blast
  ultimately show ?thesis using wf by simp
qed

subsection \<open>Time and the state\<close>

lemma fold_saveCallback_caps: "capturedMessages (fold (\<lambda>d. saveCallback) ds st) = capturedMessages st"
  by (induction ds arbitrary: st) (simp_all add: saveCallback_def saveMessages_def)

lemma fold_saveCallback_pathname: "pathname (fold (\<lambda>d. saveCallback) ds st) = pathname st"
  by (induction ds arbitrary: st) (simp_all add: saveCallback_def saveMessages_def)

lemma fold_saveCallback_clock: "clock (fold (\<lambda>d. saveCallback) ds st) = clock st"
  by (induction ds arbitrary: st) (simp_all add: saveCallback_def saveMessages_def)

lemma fold_saveCallback_auto: "isAutoScrolling (fold (\<lambda>d. saveCallback) ds st) = isAutoScrolling st"
  by (induction ds arbitrary: st) (simp_all add: saveCallback_def saveMessages_def)

lemma advance_caps [simp]: "capturedMessages (advance ms st) = capturedMessages st"
  by (simp add: advance_def Let_def fold_saveCallback_caps)

lemma advance_pathname [simp]: "pathname (advance ms st) = pathname st"
  by (simp add: advance_def Let_def fold_saveCallback_pathname)

lemma advance_clock [simp]: "clock (advance ms st) = clock st + ms"
  by (simp add: advance_def Let_def)

lemma advance_not_due:
  assumes "\<forall>d \<in> set (timers st). clock st + ms < d"
  shows "advance ms st = st\<lparr>clock := clock st + ms\<rparr>"
proof -
  have "filter (\<lambda>d. d \<le> clock st + ms) (timers st) = []"
    using assms by (auto simp: filter_empty_conv)
  moreover have "filter (\<lambda>d. clock st + ms < d) (timers st) = timers st"
    using assms by (auto simp: filter_id_conv)
  ultimately show ?thesis
    by (simp add: advance_def Let_def)
qed

lemma advance_due:
  assumes "timers st = [t]" and "t \<le> clock st + ms"
  shows "advance ms st = st\<lparr>storage_local := (storage_local st)(getThreadKey (pathname st) \<mapsto> capturedMessages st),
                          pendingSave := False, clock := clock st + ms, timers := []\<rparr>"
  using assms by (simp add: advance_def Let_def saveCallback_def saveMessages_def)

lemma scan_caps:
  "capturedMessages (fst (scanVisibleMessages innerHTML doc st))
     = fst (scanStore innerHTML doc (capturedMessages st))"
  by (simp add: scanVisibleMessages_def Let_def flushSave_def)

lemma scan_static_empty:
  "scanStore plainSerialiser doc_second [] = ([(''umsg_1'', second_user)], 1)"
  "scanStore plainSerialiser doc_second [(''umsg_1'', second_user)] = ([(''umsg_1'', second_user)], 0)"
  by code_simp+

lemma scan_storage:
  "storage_local (fst (scanVisibleMessages innerHTML doc st)) = storage_local st \<and>
   pathname (fst (scanVisibleMessages innerHTML doc st)) = pathname st \<and>
   clock (fst (scanVisibleMessages innerHTML doc st)) = clock st"
  by (simp add: scanVisibleMessages_def Let_def flushSave_def)

lemma scan_flushes:
  "0 < snd (scanStore innerHTML doc (capturedMessages st)) \<Longrightarrow>
   fst (scanVisibleMessages innerHTML doc st)
     = flushSave (st\<lparr>capturedMessages := fst (scanStore innerHTML doc (capturedMessages st))\<rparr>)"
  by (simp add: scanVisibleMessages_def Let_def)

lemma key_example: "getThreadKey ''/projects/abc/'' = ''lce_thread_L3Byb2plY3RzL2FiYw__''"
  by (simp add: getThreadKey_def stripTrailingSlash_def STORAGE_KEY_PREFIX_def b64digit_def isAlnum_def)

subsection \<open>The delayed write\<close>

lemma scan_while_pending:
  "pendingSave st \<Longrightarrow>
   fst (scanVisibleMessages innerHTML doc st)
     = st\<lparr>capturedMessages := fst (scanStore innerHTML doc (capturedMessages st))\<rparr>"
  by (simp add: scanVisibleMessages_def Let_def flushSave_def)

lemma scans_while_pending:
  "pendingSave st \<Longrightarrow> timers st = [t] \<Longrightarrow> clock st + sum_list (map fst es) < t \<Longrightarrow>
   pendingSave (scans innerHTML es st) \<and> timers (scans innerHTML es st) = [t] \<and>
   storage_local (scans innerHTML es st) = storage_local st \<and>
   clock (scans innerHTML es st) = clock st + sum_list (map fst es)"
proof (induction es arbitrary: st)
  case Nil
  then show ?case by simp
next
  case (Cons e es)
  let ?a = "st\<lparr>clock := clock st + fst e\<rparr>"
  let ?s = "fst (scanVisibleMessages innerHTML (snd e) (advance (fst e) st))"
  have a: "advance (fst e) st = ?a"
    using Cons.prems by (intro advance_not_due) simp
  have pa: "pendingSave ?a"
    using Cons.prems(1) by simp
  have s: "?s = ?a\<lparr>capturedMessages := fst (scanStore innerHTML (snd e) (capturedMessages ?a))\<rparr>"
    unfolding a using pa by (rule scan_while_pending)
  have "pendingSave ?s" "timers ?s = [t]" "clock ?s + sum_list (map fst es) < t"
    "storage_local ?s = storage_local st" "clock ?s = clock st + fst e"
    using Cons.prems unfolding s by simp_all
  with Cons.IH [of ?s] show ?case
    by (simp add: add.assoc)
qed

text \<open>
  C5 (as amended). A call of \<^verbatim>\<open>flushSave\<close> while no write is pending schedules one write, due 400
  ms after that call; a call while a write is pending does nothing. So during a burst of
  scans that ends before the write is due, the write stays pending and due when the first
  call set it, no other write is scheduled and storage is not written; when the write falls
  due, it stores the records captured by then, once, and nothing is pending afterwards.
\<close>

theorem C5_one_write_after_first_call:
  "(\<not> pendingSave st \<longrightarrow>
      flushSave st = st\<lparr>pendingSave := True, timers := timers st @ [clock st + 400]\<rparr>) \<and>
   (pendingSave st \<longrightarrow> flushSave st = st) \<and>
   (pendingSave st \<and> timers st = [t] \<and> clock st + sum_list (map fst es) < t \<longrightarrow>
      pendingSave (scans innerHTML es st) \<and> timers (scans innerHTML es st) = [t] \<and>
      storage_local (scans innerHTML es st) = storage_local st \<and>
      clock (scans innerHTML es st) = clock st + sum_list (map fst es)) \<and>
   (pendingSave st \<and> timers st = [t] \<and> t \<le> clock st + ms \<longrightarrow>
      storage_local (advance ms st)
        = (storage_local st)(getThreadKey (pathname st) \<mapsto> capturedMessages st) \<and>
      timers (advance ms st) = [] \<and> \<not> pendingSave (advance ms st))"
proof -
  have "pendingSave st \<and> timers st = [t] \<and> t \<le> clock st + ms \<longrightarrow>
      storage_local (advance ms st)
        = (storage_local st)(getThreadKey (pathname st) \<mapsto> capturedMessages st) \<and>
      timers (advance ms st) = [] \<and> \<not> pendingSave (advance ms st)"
    by (simp add: advance_due)
  then show ?thesis
    using scans_while_pending [of st t es innerHTML] by (simp add: flushSave_def)
qed

text \<open>
  The claim C5 as stated fails: a second call 100 ms after the first leaves the write due at
  400, not at 500.
\<close>

theorem C5_counterexample:
  "timers (flushSave (advance 100 (flushSave sys_example))) = [400] \<and>
   clock (flushSave (advance 100 (flushSave sys_example))) = 100 \<and>
   timers (flushSave (advance 100 (flushSave sys_example)))
     \<noteq> [clock (flushSave (advance 100 (flushSave sys_example))) + 400]"
  by (simp add: flushSave_def advance_def sys_example_def)

lemma scan_start:
  "fst (scanVisibleMessages plainSerialiser doc_first sys_example)
     = sys_example\<lparr>capturedMessages := store_first, pendingSave := True, timers := [400]\<rparr>"
  by (simp add: scanVisibleMessages_def scan_first flushSave_def sys_example_def)

theorem C5_witness:
  "\<not> pendingSave sys_example \<and>
   flushSave sys_example = sys_example\<lparr>pendingSave := True, timers := [400]\<rparr> \<and>
   timers (scans plainSerialiser [(100, doc_second), (250, doc_first)] (flushSave sys_example)) = [400] \<and>
   clock (scans plainSerialiser [(100, doc_second), (250, doc_first)] (flushSave sys_example)) = 350 \<and>
   timers (advance 400 (flushSave sys_example)) = [] \<and>
   \<not> pendingSave (advance 400 (flushSave sys_example))"
proof -
  let ?st = "flushSave sys_example"
  have idle: "\<not> pendingSave sys_example" "timers sys_example = []" "clock sys_example = 0"
    by (simp_all add: sys_example_def)
  have first: "?st = sys_example\<lparr>pendingSave := True, timers := timers sys_example @ [clock sys_example + 400]\<rparr>"
    using C5_one_write_after_first_call [of sys_example 400 "[]" plainSerialiser 0] idle by blast
  then have st: "pendingSave ?st" "timers ?st = [400]" "clock ?st = 0"
    using idle by simp_all
  have burst: "timers (scans plainSerialiser [(100, doc_second), (250, doc_first)] ?st) = [400] \<and>
      clock (scans plainSerialiser [(100, doc_second), (250, doc_first)] ?st) = 350"
    using C5_one_write_after_first_call [of ?st 400 "[(100, doc_second), (250, doc_first)]" plainSerialiser 0] st
    by simp
  have fire: "timers (advance 400 ?st) = [] \<and> \<not> pendingSave (advance 400 ?st)"
    using C5_one_write_after_first_call [of ?st 400 "[]" plainSerialiser 400] st
    by simp
  show ?thesis
    using idle first burst fire by simp
qed

subsection \<open>Clearing\<close>

lemma scanStore_nothing: "parsedMessages innerHTML doc = [] \<Longrightarrow> scanStore innerHTML doc caps = (caps, 0)"
  by (simp add: scanStore_fold)

lemma scanStore_keys:
  "set (Object_keys (fst (scanStore innerHTML doc []))) \<subseteq> id_str ` set (parsedMessages innerHTML doc)"
  using keys_fold_capture [of "([], 0)" "parsedMessages innerHTML doc"]
  by (simp add: scanStore_fold set_Object_keys del: set_map)

lemma delivered_unobserved:
  "onMessage_clearMessages innerHTML False doc st = st\<lparr>capturedMessages := []\<rparr>"
  by (simp add: onMessage_clearMessages_def)

lemma delivered_observed:
  "onMessage_clearMessages innerHTML True doc st
     = fst (scanVisibleMessages innerHTML doc (st\<lparr>capturedMessages := []\<rparr>))"
  by (simp add: onMessage_clearMessages_def)

lemma delivered_caps:
  "capturedMessages (onMessage_clearMessages innerHTML observing doc st)
     = (if observing then fst (scanStore innerHTML doc []) else [])"
  by (cases observing) (simp_all add: delivered_unobserved delivered_observed scan_caps)

lemma delivered_storage:
  "storage_local (onMessage_clearMessages innerHTML observing doc st) = storage_local st \<and>
   pathname (onMessage_clearMessages innerHTML observing doc st) = pathname st \<and>
   clock (onMessage_clearMessages innerHTML observing doc st) = clock st"
  by (cases observing) (simp_all add: delivered_unobserved delivered_observed scan_storage)

lemma delivered_pending:
  "observing \<Longrightarrow> 0 < snd (scanStore innerHTML doc []) \<Longrightarrow>
   pendingSave (onMessage_clearMessages innerHTML observing doc st)"
  by (simp add: delivered_observed scan_flushes flushSave_def)

lemma delivered_timer:
  "observing \<Longrightarrow> 0 < snd (scanStore innerHTML doc []) \<Longrightarrow> \<not> pendingSave st \<Longrightarrow>
   timers (onMessage_clearMessages innerHTML observing doc st) = timers st @ [clock st + 400]"
  by (simp add: delivered_observed scan_flushes flushSave_def)

text \<open>
  C4 (as amended). The clear button of the popup, once confirmed, removes the record stored
  under the thread key; when the message reaches the content script, the listener empties
  \<^verbatim>\<open>capturedMessages\<close>, and its toast makes the mutation observer scan the document at once.
  Provided that no write of \<^verbatim>\<open>flushSave\<close> falls due between the removal and the delivery of
  the message: afterwards storage holds nothing under the key, so the content script and the
  popup load an empty map, and the store holds what one scan of the document captures into
  an empty store, that is, records of messages rendered then and none other. The store is
  empty when the observer has not been started or the document shows no message. When the
  scan captures a record, a write is pending; if none was pending before and no timer was
  set, it falls due 400 ms after the delivery and stores the records captured by the scan.
\<close>

theorem C4_clear_then_rescan:
  fixes st :: sys and tabUrl latency innerHTML observing doc
  defines "st' \<equiv> btn_clear_onclick True tabUrl latency innerHTML observing doc st"
  assumes same: "url_pathname tabUrl = pathname st"
    and quiet: "\<forall>d \<in> set (timers st). clock st + latency < d"
  shows "capturedMessages st' = (if observing then fst (scanStore innerHTML doc []) else []) \<and>
         set (Object_keys (capturedMessages st')) \<subseteq> id_str ` set (parsedMessages innerHTML doc) \<and>
         storage_local st' (getThreadKey (pathname st)) = None \<and>
         loadMessages st' = [] \<and>
         popup_getMessages tabUrl st' = [] \<and>
         (\<not> observing \<or> parsedMessages innerHTML doc = [] \<longrightarrow>
            capturedMessages st' = [] \<and> length (Object_keys (capturedMessages st')) = 0) \<and>
         (observing \<and> 0 < snd (scanStore innerHTML doc []) \<longrightarrow> pendingSave st') \<and>
         (observing \<and> 0 < snd (scanStore innerHTML doc []) \<and> \<not> pendingSave st \<and> timers st = [] \<longrightarrow>
            timers st' = [clock st + latency + 400] \<and>
            loadMessages (advance 400 st') = capturedMessages st')"
proof -
  let ?removed = "popup_clearMessages tabUrl st"
  let ?waited = "?removed\<lparr>clock := clock st + latency\<rparr>"
  have key: "popup_getThreadKey tabUrl = getThreadKey (pathname st)"
    using same by (simp add: popup_getThreadKey_def getThreadKey_def)
  have "\<forall>d \<in> set (timers ?removed). clock ?removed + latency < d"
    using quiet by (simp add: popup_clearMessages_def)
  then have "advance latency ?removed = ?removed\<lparr>clock := clock ?removed + latency\<rparr>"
    by (rule advance_not_due)
  then have waited: "advance latency ?removed = ?waited"
    by (simp add: popup_clearMessages_def)
  have st': "st' = onMessage_clearMessages innerHTML observing doc ?waited"
    by (simp add: st'_def btn_clear_onclick_def waited)
  have caps: "capturedMessages st' = (if observing then fst (scanStore innerHTML doc []) else [])"
    by (simp only: st' delivered_caps)
  have keys: "set (Object_keys (capturedMessages st')) \<subseteq> id_str ` set (parsedMessages innerHTML doc)"
  proof (cases observing)
    case True
    then show ?thesis using scanStore_keys [of innerHTML doc] by (simp only: caps if_True)
  next
    case False
    then show ?thesis by (simp add: caps Object_keys_def ownEntries_def)
  qed
  have store: "storage_local st' = storage_local ?waited" and path: "pathname st' = pathname st"
    and clock: "clock st' = clock st + latency"
    using delivered_storage [of innerHTML observing doc ?waited]
    by (simp_all add: st' popup_clearMessages_def)
  have gone: "storage_local st' (getThreadKey (pathname st)) = None"
    by (simp add: store popup_clearMessages_def key)
  have load: "loadMessages st' = []"
    using gone by (simp add: loadMessages_def path)
  have popup: "popup_getMessages tabUrl st' = []"
    using gone by (simp add: popup_getMessages_def key)
  have empty: "\<not> observing \<or> parsedMessages innerHTML doc = [] \<longrightarrow>
      capturedMessages st' = [] \<and> length (Object_keys (capturedMessages st')) = 0"
    by (auto simp: caps scanStore_nothing length_Object_keys)
  have pending: "observing \<and> 0 < snd (scanStore innerHTML doc []) \<longrightarrow> pendingSave st'"
    using delivered_pending [of observing innerHTML doc ?waited] by (simp add: st')
  have due: "timers st' = [clock st + latency + 400] \<and>
      loadMessages (advance 400 st') = capturedMessages st'"
    if "observing" "0 < snd (scanStore innerHTML doc [])" "\<not> pendingSave st" "timers st = []"
  proof -
    have t: "timers st' = [clock st + latency + 400]"
      using delivered_timer [of observing innerHTML doc ?waited] that
      by (simp add: st' popup_clearMessages_def)
    have "advance 400 st'
        = st'\<lparr>storage_local := (storage_local st')(getThreadKey (pathname st') \<mapsto> capturedMessages st'),
              pendingSave := False, clock := clock st' + 400, timers := []\<rparr>"
    proof (rule advance_due)
      show "timers st' = [clock st + latency + 400]" by (rule t)
      show "clock st + latency + 400 \<le> clock st' + 400" by (simp only: clock)
    qed
    then have "loadMessages (advance 400 st') = capturedMessages st'"
      by (simp add: loadMessages_def)
    with t show ?thesis by simp
  qed
  from caps keys gone load popup empty pending due show ?thesis by blast
qed

text \<open>
  The claim C4 as stated fails: with two records captured and both messages on the page, the
  store holds two records again once the message has been handled, and 400 ms later so does
  the stored record.
\<close>

theorem C4_counterexample:
  "length (Object_keys (capturedMessages sys_loaded)) = 2 \<and>
   capturedMessages (btn_clear_onclick True tab_example 0 plainSerialiser True doc_first sys_loaded)
     = store_first \<and>
   length (Object_keys (capturedMessages
     (btn_clear_onclick True tab_example 0 plainSerialiser True doc_first sys_loaded))) = 2 \<and>
   loadMessages (advance 400
     (btn_clear_onclick True tab_example 0 plainSerialiser True doc_first sys_loaded)) = store_first"
proof -
  let ?st' = "btn_clear_onclick True tab_example 0 plainSerialiser True doc_first sys_loaded"
  have two: "length (Object_keys store_first) = 2"
    by (simp add: length_Object_keys store_first_def)
  have caps: "capturedMessages ?st' = store_first"
    by (simp add: btn_clear_onclick_def delivered_caps scan_first)
  have rest: "pathname ?st' = ''/projects/abc/''" "timers ?st' = [400]" "clock ?st' = 0"
    by (simp_all add: btn_clear_onclick_def delivered_observed scan_flushes scan_first
        flushSave_def advance_def popup_clearMessages_def sys_loaded_def)
  have "advance 400 ?st'
      = ?st'\<lparr>storage_local := (storage_local ?st')(getThreadKey (pathname ?st') \<mapsto> capturedMessages ?st'),
            pendingSave := False, clock := clock ?st' + 400, timers := []\<rparr>"
  proof (rule advance_due)
    show "timers ?st' = [400]" by (rule rest)
    show "400 \<le> clock ?st' + 400" by (simp only: rest)
  qed
  then have "loadMessages (advance 400 ?st') = store_first"
    by (simp add: loadMessages_def caps)
  with two caps show ?thesis
    by (simp add: sys_loaded_def)
qed

theorem C4_witness:
  "url_pathname tab_example = pathname sys_loaded \<and>
   capturedMessages sys_loaded = store_first \<and>
   capturedMessages (btn_clear_onclick True tab_example 50 plainSerialiser True doc_second sys_loaded)
     = [(''umsg_1'', second_user)] \<and>
   capturedMessages (btn_clear_onclick True tab_example 50 plainSerialiser False doc_second sys_loaded)
     = [] \<and>
   loadMessages (btn_clear_onclick True tab_example 50 plainSerialiser True doc_second sys_loaded) = [] \<and>
   timers (btn_clear_onclick True tab_example 50 plainSerialiser True doc_second sys_loaded) = [450]"
proof -
  have same: "url_pathname tab_example = pathname sys_loaded"
    by (simp add: tab_example_def sys_loaded_def)
  have quiet: "\<forall>d \<in> set (timers sys_loaded). clock sys_loaded + 50 < d"
    by (simp add: sys_loaded_def)
  have idle: "\<not> pendingSave sys_loaded" "timers sys_loaded = []" "clock sys_loaded = 0"
    "capturedMessages sys_loaded = store_first"
    by (simp_all add: sys_loaded_def)
  have found: "0 < snd (scanStore plainSerialiser doc_second [])"
    by (simp add: scan_static_empty)
  note on = C4_clear_then_rescan [where st = sys_loaded and tabUrl = tab_example and latency = 50
      and innerHTML = plainSerialiser and observing = True and doc = doc_second, OF same quiet]
  note off = C4_clear_then_rescan [where st = sys_loaded and tabUrl = tab_example and latency = 50
      and innerHTML = plainSerialiser and observing = False and doc = doc_second, OF same quiet]
  have "capturedMessages (btn_clear_onclick True tab_example 50 plainSerialiser True doc_second sys_loaded)
      = fst (scanStore plainSerialiser doc_second [])"
    using on by simp
  moreover have "capturedMessages
      (btn_clear_onclick True tab_example 50 plainSerialiser False doc_second sys_loaded) = []"
    using off by simp
  moreover have "loadMessages
      (btn_clear_onclick True tab_example 50 plainSerialiser True doc_second sys_loaded) = []"
    using on by simp
  moreover have "timers (btn_clear_onclick True tab_example 50 plainSerialiser True doc_second sys_loaded)
      = [clock sys_loaded + 50 + 400]"
    using on found idle by simp
  ultimately show ?thesis
    using same idle by (simp add: scan_static_empty)
qed

text \<open>
  What the statement above leaves out: a write of \<^verbatim>\<open>flushSave\<close> that falls due after the removal
  and before the listener runs stores the records once more, and the listener does not
  remove them. Here three records are held, the write is due at 400, the removal happens at
  100 and the message arrives 300 ms later.
\<close>

lemma write_between_removal_and_delivery:
  "capturedMessages (btn_clear_onclick True tab_example 300 plainSerialiser False [] sys_busy) = [] \<and>
   loadMessages (btn_clear_onclick True tab_example 300 plainSerialiser False [] sys_busy)
     = store_example"
  by (simp add: btn_clear_onclick_def delivered_unobserved popup_clearMessages_def advance_def
      saveCallback_def saveMessages_def loadMessages_def sys_busy_def tab_example_def
      popup_getThreadKey_def key_example [unfolded getThreadKey_def])

subsection \<open>Markup to Markdown\<close>

text \<open>
  C6. The case \<^verbatim>\<open>ol\<close> numbers each \<^verbatim>\<open>li\<close> child from 1 and ends it with a newline, but it
  converts the child with \<^verbatim>\<open>walk\<close>, whose case \<^verbatim>\<open>li\<close> puts \<^verbatim>\<open>- \<close> in front: on the list of
  the two items a and b the converter gives the lines \<^verbatim>\<open>1. - a\<close> and \<^verbatim>\<open>2. - b\<close>, so an item
  of an ordered list carries both markers.
\<close>

theorem C6_item_gets_both_markers:
  "htmlToMarkdown parse_example ''<ol><li>a</li><li>b</li></ol>''
     = ''1. - a'' @ [nl] @ ''2. - b''"
  by code_simp

subsection \<open>The timestamp\<close>

lemma trim_ends:
  assumes "trim s \<noteq> []"
  shows "\<not> isSpace (hd (trim s)) \<and> \<not> isSpace (last (trim s))"
proof -
  let ?ys = "dropWhile isSpace s"
  let ?zs = "dropWhile isSpace (rev ?ys)"
  have zs: "?zs \<noteq> []" using assms by (metis trim_def rev.simps(1))
  then have l: "\<not> isSpace (hd ?zs)" by (rule hd_dropWhile)
  have ys: "?ys \<noteq> []" using zs by (metis dropWhile.simps(1) rev.simps(1))
  then have h: "\<not> isSpace (hd ?ys)" by (rule hd_dropWhile)
  have "rev ?ys = takeWhile isSpace (rev ?ys) @ ?zs" by simp
  then have "last (rev ?ys) = last ?zs" using zs by (metis last_appendR)
  then have "last ?zs = hd ?ys" using ys by (simp add: last_rev)
  then have "hd (trim s) = hd ?ys" using zs by (simp only: trim_def hd_rev)
  moreover have "last (trim s) = hd ?zs" using zs by (simp only: trim_def last_rev)
  ultimately show ?thesis using h l by simp
qed

text \<open>
  C8 (as amended). The timestamp is made of the trimmed text of the date label and the
  trimmed text of its next element sibling, each dropped when it is missing or empty and
  the rest joined by one space: without a date label it is empty; with a date label and no
  element after it, it is the date text alone; with both it is the two texts with one space
  between them, or the one that is not empty. A trimmed text that is not empty neither
  starts nor ends with white space. The parser puts this value in \<^verbatim>\<open>timestampText\<close>.
\<close>

theorem C8_timestamp:
  "(findWithNext isDateLabel cs = None \<longrightarrow> timestampOf cs = []) \<and>
   (\<forall>d. findWithNext isDateLabel cs = Some (d, None) \<longrightarrow> timestampOf cs = trim (textContent d)) \<and>
   (\<forall>d t. findWithNext isDateLabel cs = Some (d, Some t) \<longrightarrow>
      timestampOf cs =
        (if trim (textContent d) = [] then trim (textContent t)
         else if trim (textContent t) = [] then trim (textContent d)
         else trim (textContent d) @ '' '' @ trim (textContent t))) \<and>
   (\<forall>s. trim s \<noteq> [] \<longrightarrow> \<not> isSpace (hd (trim s)) \<and> \<not> isSpace (last (trim s))) \<and>
   (\<forall>m. parseMessageElement innerHTML inButton (p, cs) = Some m \<longrightarrow> timestampText m = timestampOf cs)"
proof -
  have a: "findWithNext isDateLabel cs = None \<longrightarrow> timestampOf cs = []"
    by (simp add: timestampOf_def)
  have b: "\<forall>d. findWithNext isDateLabel cs = Some (d, None) \<longrightarrow> timestampOf cs = trim (textContent d)"
    by (simp add: timestampOf_def)
  have c: "\<forall>d t. findWithNext isDateLabel cs = Some (d, Some t) \<longrightarrow>
      timestampOf cs =
        (if trim (textContent d) = [] then trim (textContent t)
         else if trim (textContent t) = [] then trim (textContent d)
         else trim (textContent d) @ '' '' @ trim (textContent t))"
    by (simp add: timestampOf_def)
  have d: "\<forall>m. parseMessageElement innerHTML inButton (p, cs) = Some m \<longrightarrow> timestampText m = timestampOf cs"
    by (auto simp: parseMessageElement_def Let_def split: if_splits)
  from a b c d trim_ends show ?thesis by blast
qed

text \<open>
  The claim C8 as stated fails: a date label with no element after it gives the date text,
  not the empty string.
\<close>

theorem C8_counterexample:
  "findWithNext isDateLabel date_only
     = Some ((mkProps ''SPAN'' [(''class'', ''text-muted-foreground font-medium'')] None,
              [TextNode '' Jan 5 '']), None) \<and>
   map_option timestampText
     (parseMessageElement plainSerialiser False
        (mkProps ''DIV'' [(''data-message-id'', ''aimsg_1'')] None, date_only))
     = Some ''Jan 5''"
  by code_simp

lemma find_date_and_time:
  "findWithNext isDateLabel date_and_time
     = Some ((mkProps ''SPAN'' [(''class'', ''text-muted-foreground font-medium'')] None,
              [TextNode '' Jan 5 '']),
             Some (mkProps ''SPAN'' [] None, [TextNode ''10:42 '']))"
  by code_simp

lemma trims_example:
  "trim (textContent (mkProps ''SPAN'' [(''class'', ''text-muted-foreground font-medium'')] None,
              [TextNode '' Jan 5 ''])) = ''Jan 5''"
  "trim (textContent (mkProps ''SPAN'' [] None, [TextNode ''10:42 ''])) = ''10:42''"
  by code_simp+

theorem C8_witness:
  "findWithNext isDateLabel [] = None \<and> timestampOf [] = [] \<and>
   timestampOf date_and_time = ''Jan 5 10:42'' \<and>
   timestampOf date_only = ''Jan 5''"
proof -
  have none: "findWithNext isDateLabel [] = None" by simp
  have one: "timestampOf [] = []"
    using C8_timestamp [of "[]" plainSerialiser False "mkProps ''DIV'' [] None"] none by blast
  have two: "timestampOf date_and_time
      = (if ''Jan 5'' = [] then ''10:42'' else if ''10:42'' = [] then ''Jan 5''
         else ''Jan 5'' @ '' '' @ ''10:42'')"
    using C8_timestamp [of date_and_time plainSerialiser False "mkProps ''DIV'' [] None"]
      find_date_and_time trims_example by metis
  have three: "timestampOf date_only = ''Jan 5''"
    by code_simp
  from none one two three show ?thesis by simp
qed

subsection \<open>The driver\<close>

lemma roundState_caps:
  "capturedMessages (roundState innerHTML page st i) = storeAfter innerHTML page (capturedMessages st) i"
  by (induction i) (simp_all add: scan_caps)

lemma roundState_count:
  "length (Object_keys (capturedMessages (roundState innerHTML page st i)))
     = countAfter innerHTML page (capturedMessages st) i"
  by (simp add: countAfter_def roundState_caps)

lemma loopInv_start: "loopInv innerHTML page caps 0 0 0"
  by (simp add: loopInv_def)

lemma loopInv_not_settled:
  assumes "loopInv innerHTML page caps i lastCount sr" and "sr < 3"
  shows "\<not> settled innerHTML page caps i"
proof
  assume s: "settled innerHTML page caps i"
  then have i3: "3 \<le> i" by (simp add: settled_def)
  with assms have "\<not> unchanged innerHTML page caps (i - sr - 1)"
    by (simp add: loopInv_def)
  moreover from \<open>sr < 3\<close> have "sr = 0 \<or> sr = 1 \<or> sr = 2" by arith
  ultimately show False
    using s i3 by (auto simp: settled_def numeral_2_eq_2 numeral_3_eq_3)
qed

lemma loopInv_settled:
  assumes "loopInv innerHTML page caps i lastCount 3"
  shows "settled innerHTML page caps i"
proof -
  from assms have i3: "3 \<le> i"
    and u: "\<forall>j. i - 3 \<le> j \<and> j < i \<longrightarrow> unchanged innerHTML page caps j"
    by (simp_all add: loopInv_def)
  from i3 have "i - 3 \<le> i - 1 \<and> i - 1 < i" "i - 3 \<le> i - 2 \<and> i - 2 < i" "i - 3 \<le> i - 3 \<and> i - 3 < i"
    by arith+
  with u i3 show ?thesis
    unfolding settled_def by blast
qed

lemma loopInv_test:
  assumes "loopInv innerHTML page caps i lastCount sr"
  shows "countAfter innerHTML page caps (Suc i) = lastCount \<longleftrightarrow> unchanged innerHTML page caps i"
  using assms by (auto simp: loopInv_def unchanged_def)

lemma loopInv_same:
  assumes inv: "loopInv innerHTML page caps i lastCount sr" and "sr < 3"
    and u: "unchanged innerHTML page caps i"
  shows "loopInv innerHTML page caps (Suc i) lastCount (Suc sr)"
proof -
  have ns: "\<not> settled innerHTML page caps i"
    using inv \<open>sr < 3\<close> by (rule loopInv_not_settled)
  have last: "lastCount = countAfter innerHTML page caps (Suc i)"
    using loopInv_test [OF inv] u by simp
  have range: "\<forall>j. Suc i - Suc sr \<le> j \<and> j < Suc i \<longrightarrow> unchanged innerHTML page caps j"
  proof (intro allI impI)
    fix j assume j: "Suc i - Suc sr \<le> j \<and> j < Suc i"
    show "unchanged innerHTML page caps j"
    proof (cases "j = i")
      case True
      with u show ?thesis by simp
    next
      case False
      with j have "i - sr \<le> j \<and> j < i" by arith
      with inv show ?thesis by (simp add: loopInv_def)
    qed
  qed
  have before: "Suc sr < Suc i \<longrightarrow> \<not> unchanged innerHTML page caps (Suc i - Suc sr - 1)"
    using inv by (simp add: loopInv_def)
  have none: "\<forall>n. n < Suc i \<longrightarrow> \<not> settled innerHTML page caps n"
  proof (intro allI impI)
    fix n assume "n < Suc i"
    then have "n < i \<or> n = i" by arith
    with inv ns show "\<not> settled innerHTML page caps n"
      by (auto simp: loopInv_def)
  qed
  from inv \<open>sr < 3\<close> have "Suc sr \<le> 3 \<and> Suc sr \<le> Suc i"
    by (simp add: loopInv_def)
  with last range before none show ?thesis
    unfolding loopInv_def by simp
qed

lemma loopInv_reset:
  assumes inv: "loopInv innerHTML page caps i lastCount sr" and "sr < 3"
    and u: "\<not> unchanged innerHTML page caps i"
  shows "loopInv innerHTML page caps (Suc i) (countAfter innerHTML page caps (Suc i)) 0"
proof -
  have ns: "\<not> settled innerHTML page caps i"
    using inv \<open>sr < 3\<close> by (rule loopInv_not_settled)
  have none: "\<forall>n. n < Suc i \<longrightarrow> \<not> settled innerHTML page caps n"
  proof (intro allI impI)
    fix n assume "n < Suc i"
    then have "n < i \<or> n = i" by arith
    with inv ns show "\<not> settled innerHTML page caps n"
      by (auto simp: loopInv_def)
  qed
  moreover have "\<forall>j. Suc i - 0 \<le> j \<and> j < Suc i \<longrightarrow> unchanged innerHTML page caps j"
    by auto
  ultimately show ?thesis
    using u unfolding loopInv_def by simp
qed

lemma loopInv_late:
  assumes inv: "loopInv innerHTML page caps i lastCount sr"
    and stable: "\<forall>j\<ge>M. unchanged innerHTML page caps j"
    and late: "M + 3 \<le> i"
  shows "sr = 3"
proof (rule ccontr)
  assume "sr \<noteq> 3"
  with inv have sr: "sr < 3" by (simp add: loopInv_def)
  with late have "sr < i" by arith
  with inv have "\<not> unchanged innerHTML page caps (i - sr - 1)"
    by (simp add: loopInv_def)
  moreover from sr late have "M \<le> i - sr - 1" by arith
  ultimately show False using stable by blast
qed

lemma scrollLoop_settles:
  assumes stable: "\<forall>j\<ge>M. unchanged innerHTML page (capturedMessages st) j"
  shows "loopInv innerHTML page (capturedMessages st) i lastCount sr \<Longrightarrow>
         \<exists>n. scrollLoop innerHTML page i lastCount sr (roundState innerHTML page st i)
                = Some (n, roundState innerHTML page st n) \<and>
              i \<le> n \<and> n \<le> max i (M + 3) \<and>
              settled innerHTML page (capturedMessages st) n \<and>
              (\<forall>k<n. \<not> settled innerHTML page (capturedMessages st) k)"
proof (induction "M + 3 - i" arbitrary: i lastCount sr)
  case 0
  then have "M + 3 \<le> i" by simp
  with "0.prems" stable have sr: "sr = 3" using loopInv_late by blast
  have "scrollLoop innerHTML page i lastCount sr (roundState innerHTML page st i)
          = Some (i, roundState innerHTML page st i)"
    by (subst scrollLoop.simps) (simp add: sr)
  moreover have "settled innerHTML page (capturedMessages st) i"
    using "0.prems" sr loopInv_settled by blast
  moreover have "\<forall>k<i. \<not> settled innerHTML page (capturedMessages st) k"
    using "0.prems" by (simp add: loopInv_def)
  ultimately show ?case by auto
next
  case (Suc m)
  let ?caps = "capturedMessages st"
  show ?case
  proof (cases "sr = 3")
    case True
    have "scrollLoop innerHTML page i lastCount sr (roundState innerHTML page st i)
            = Some (i, roundState innerHTML page st i)"
      by (subst scrollLoop.simps) (simp add: True)
    moreover have "settled innerHTML page ?caps i"
      using Suc.prems True loopInv_settled by blast
    moreover have "\<forall>k<i. \<not> settled innerHTML page ?caps k"
      using Suc.prems by (simp add: loopInv_def)
    ultimately show ?thesis by auto
  next
    case False
    with Suc.prems have sr: "sr < 3" by (simp add: loopInv_def)
    from Suc.hyps have m: "m = M + 3 - Suc i" and i: "i < M + 3" by arith+
    let ?c = "countAfter innerHTML page ?caps (Suc i)"
    have unfold: "scrollLoop innerHTML page i lastCount sr (roundState innerHTML page st i)
        = (if ?c = lastCount
           then scrollLoop innerHTML page (Suc i) lastCount (Suc sr) (roundState innerHTML page st (Suc i))
           else scrollLoop innerHTML page (Suc i) ?c 0 (roundState innerHTML page st (Suc i)))"
      by (subst scrollLoop.simps) (simp add: sr roundState_count [of innerHTML page st "Suc i", simplified] Let_def)
    show ?thesis
    proof (cases "unchanged innerHTML page ?caps i")
      case True
      then have eq: "?c = lastCount" using loopInv_test [OF Suc.prems] by simp
      have "loopInv innerHTML page ?caps (Suc i) lastCount (Suc sr)"
        using Suc.prems sr True by (rule loopInv_same)
      from Suc.hyps(1) [OF m this] obtain n where
        n: "scrollLoop innerHTML page (Suc i) lastCount (Suc sr) (roundState innerHTML page st (Suc i))
              = Some (n, roundState innerHTML page st n)"
          "Suc i \<le> n" "n \<le> max (Suc i) (M + 3)" "settled innerHTML page ?caps n"
          "\<forall>k<n. \<not> settled innerHTML page ?caps k"
        by blast
      from n(2,3) i have "i \<le> n \<and> n \<le> max i (M + 3)" by arith
      with n unfold eq show ?thesis by auto
    next
      case False
      then have ne: "?c \<noteq> lastCount" using loopInv_test [OF Suc.prems] by simp
      have "loopInv innerHTML page ?caps (Suc i) ?c 0"
        using Suc.prems sr False by (rule loopInv_reset)
      from Suc.hyps(1) [OF m this] obtain n where
        n: "scrollLoop innerHTML page (Suc i) ?c 0 (roundState innerHTML page st (Suc i))
              = Some (n, roundState innerHTML page st n)"
          "Suc i \<le> n" "n \<le> max (Suc i) (M + 3)" "settled innerHTML page ?caps n"
          "\<forall>k<n. \<not> settled innerHTML page ?caps k"
        by blast
      from n(2,3) i have "i \<le> n \<and> n \<le> max i (M + 3)" by arith
      with n unfold ne show ?thesis by auto
    qed
  qed
qed

lemma stable_from:
  assumes H: "\<forall>j\<ge>N. countAfter innerHTML page caps (Suc j) = countAfter innerHTML page caps j"
  shows "countAfter innerHTML page caps (N + k) = countAfter innerHTML page caps N"
  by (induction k) (simp_all add: H)

lemma unchanged_from:
  assumes H: "\<forall>j\<ge>N. countAfter innerHTML page caps (Suc j) = countAfter innerHTML page caps j"
  shows "\<forall>j \<ge> (if caps = [] then N else max N 1). unchanged innerHTML page caps j"
proof (intro allI impI)
  fix j assume j: "(if caps = [] then N else max N 1) \<le> j"
  then have N: "N \<le> j" by (simp split: if_splits)
  show "unchanged innerHTML page caps j"
  proof (cases "j = 0")
    case False
    with H N show ?thesis by (simp add: unchanged_def)
  next
    case True
    with j have "caps = []" by (simp split: if_splits)
    then have "countAfter innerHTML page caps 0 = 0"
      by (simp add: countAfter_def length_Object_keys)
    with H N True show ?thesis by (simp add: unchanged_def)
  qed
qed

text \<open>
  C7 (as amended). Take a run that starts while no run is active, with a scroll container,
  against a page whose rounds from round \<open>N\<close> on add no record. The loop ends. It ends after
  the first \<open>n\<close> rounds of which the last three each found the count equal to the count
  remembered from the round before (0 before the first round, whatever the store holds then),
  and not earlier. So \<open>n\<close> is at most \<open>max N 1 + 3\<close>, and at most \<open>N + 3\<close> when \<open>N\<close> is not 0 or
  the store is empty at the start. The toast reports the number of records of the final
  store, which is the count after round \<open>N\<close> when \<open>n\<close> is not below \<open>N\<close>. Without a scroll
  container the run reports that none was found, makes no round and leaves the state as it
  was.
\<close>

theorem C7_driver_settles:
  assumes idle: "\<not> isAutoScrolling st"
    and H: "\<forall>j\<ge>N. countAfter innerHTML page (capturedMessages st) (Suc j)
                  = countAfter innerHTML page (capturedMessages st) j"
  shows "(\<exists>n st'. autoScrollAndCapture innerHTML page (Some scrollEl) st
                    = Some (st', Captured (countAfter innerHTML page (capturedMessages st) n), n) \<and>
            capturedMessages st' = storeAfter innerHTML page (capturedMessages st) n \<and>
            \<not> isAutoScrolling st' \<and>
            settled innerHTML page (capturedMessages st) n \<and>
            (\<forall>k<n. \<not> settled innerHTML page (capturedMessages st) k) \<and>
            n \<le> max N 1 + 3 \<and>
            (1 \<le> N \<or> capturedMessages st = [] \<longrightarrow> n \<le> N + 3) \<and>
            (N \<le> n \<longrightarrow> countAfter innerHTML page (capturedMessages st) n
                          = countAfter innerHTML page (capturedMessages st) N)) \<and>
         autoScrollAndCapture innerHTML page None st = Some (st, NoContainer, 0)"
proof -
  let ?caps = "capturedMessages st"
  let ?st = "st\<lparr>isAutoScrolling := True\<rparr>"
  let ?M = "if ?caps = [] then N else max N 1"
  have caps: "capturedMessages ?st = ?caps" by simp
  have stable: "\<forall>j\<ge>?M. unchanged innerHTML page (capturedMessages ?st) j"
    unfolding caps using H by (rule unchanged_from)
  have "loopInv innerHTML page (capturedMessages ?st) 0 0 0"
    by (rule loopInv_start)
  from scrollLoop_settles [OF stable this] obtain n where
    run: "scrollLoop innerHTML page 0 0 0 ?st = Some (n, roundState innerHTML page ?st n)"
    and bound: "n \<le> ?M + 3"
    and settled: "settled innerHTML page ?caps n"
    and first: "\<forall>k<n. \<not> settled innerHTML page ?caps k"
    by auto
  let ?fin = "(roundState innerHTML page ?st n)\<lparr>isAutoScrolling := False\<rparr>"
  have fin_caps: "capturedMessages ?fin = storeAfter innerHTML page ?caps n"
    by (simp add: roundState_caps)
  have result: "autoScrollAndCapture innerHTML page (Some scrollEl) st
      = Some (?fin, Captured (countAfter innerHTML page ?caps n), n)"
    using idle run by (simp add: autoScrollAndCapture_def roundState_count [of innerHTML page ?st n, simplified])
  have b1: "n \<le> max N 1 + 3" using bound by (simp split: if_splits)
  have b2: "1 \<le> N \<or> ?caps = [] \<longrightarrow> n \<le> N + 3" using bound by (auto split: if_splits)
  have final: "N \<le> n \<longrightarrow> countAfter innerHTML page ?caps n = countAfter innerHTML page ?caps N"
    using stable_from [OF H, of "n - N"] by auto
  have none: "autoScrollAndCapture innerHTML page None st = Some (st, NoContainer, 0)"
    using idle by (simp add: autoScrollAndCapture_def)
  have "\<not> isAutoScrolling ?fin" by simp
  with result fin_caps settled first b1 b2 final none show ?thesis by blast
qed

lemma scan_static:
  "scanStore plainSerialiser doc_second store_first = (store_static, 0)"
  "scanStore plainSerialiser doc_second store_static = (store_static, 0)"
  by code_simp+

text \<open>
  The claim C7 as stated fails: with two records in the store at the start and a page that
  never adds one (\<open>N = 0\<close>), the loop makes four rounds, not at most three; the first round
  compares the count 2 with 0.
\<close>

theorem C7_counterexample:
  "scanStore plainSerialiser doc_second store_first = (store_static, 0) \<and>
   scanStore plainSerialiser doc_second store_static = (store_static, 0) \<and>
   map_option snd (autoScrollAndCapture plainSerialiser page_static (Some scroller) sys_loaded)
     = Some (Captured 2, 4) \<and>
   \<not> (4 \<le> (0::nat) + 3)"
proof -
  have "map_option snd (autoScrollAndCapture plainSerialiser page_static (Some scroller) sys_loaded)
     = Some (Captured 2, 4)"
    by code_simp
  with scan_static show ?thesis by simp
qed

lemma storeAfter_static: "storeAfter plainSerialiser page_static [] (Suc j) = [(''umsg_1'', second_user)]"
  by (induction j) (simp_all add: page_static_def scan_static_empty)

lemma stable_static:
  "\<forall>j\<ge>1. countAfter plainSerialiser page_static (capturedMessages sys_example) (Suc j)
           = countAfter plainSerialiser page_static (capturedMessages sys_example) j"
proof (intro allI impI)
  fix j :: nat assume "1 \<le> j"
  then obtain i where "j = Suc i" by (cases j) auto
  then show "countAfter plainSerialiser page_static (capturedMessages sys_example) (Suc j)
           = countAfter plainSerialiser page_static (capturedMessages sys_example) j"
    by (simp only: countAfter_def sys_example_def sys.simps storeAfter_static)
qed

lemma count_static:
  "countAfter plainSerialiser page_static (capturedMessages sys_example) (Suc j) = 1"
proof -
  have "capturedMessages sys_example = []" by (simp add: sys_example_def)
  then show ?thesis
    by (simp add: countAfter_def storeAfter_static length_Object_keys del: storeAfter.simps)
qed

theorem C7_witness:
  "\<not> isAutoScrolling sys_example \<and>
   map_option snd (autoScrollAndCapture plainSerialiser page_static (Some scroller) sys_example)
     = Some (Captured 1, 4) \<and>
   settled plainSerialiser page_static (capturedMessages sys_example) 4 \<and>
   autoScrollAndCapture plainSerialiser page_static None sys_example = Some (sys_example, NoContainer, 0)"
proof -
  let ?caps = "capturedMessages sys_example"
  have idle: "\<not> isAutoScrolling sys_example" by (simp add: sys_example_def)
  note inst = C7_driver_settles [OF idle stable_static, of scroller]
  from inst have none: "autoScrollAndCapture plainSerialiser page_static None sys_example
      = Some (sys_example, NoContainer, 0)"
    by (rule conjunct2)
  from inst have "\<exists>n st'. autoScrollAndCapture plainSerialiser page_static (Some scroller) sys_example
          = Some (st', Captured (countAfter plainSerialiser page_static ?caps n), n) \<and>
        settled plainSerialiser page_static ?caps n \<and> n \<le> 1 + 3"
    by (elim conjE exE) (intro exI conjI, assumption, assumption, simp)
  then obtain n st' where
    r: "autoScrollAndCapture plainSerialiser page_static (Some scroller) sys_example
          = Some (st', Captured (countAfter plainSerialiser page_static ?caps n), n)"
    and s: "settled plainSerialiser page_static ?caps n" and b: "n \<le> 1 + 3"
    by (elim exE conjE)
  have "\<not> unchanged plainSerialiser page_static ?caps 0"
    by (simp add: unchanged_def count_static)
  with s have "n \<noteq> 3" by (auto simp: settled_def)
  moreover from s have "3 \<le> n" by (simp add: settled_def)
  ultimately have n: "n = 4" using b by arith
  have "(4::nat) = Suc 3" by simp
  then have "countAfter plainSerialiser page_static ?caps 4 = 1"
    by (simp only: count_static)
  with r n have "map_option snd (autoScrollAndCapture plainSerialiser page_static (Some scroller) sys_example)
      = Some (Captured 1, 4)"
    by simp
  with idle s n none show ?thesis by simp
qed

end
